theory Spec2Isabelle
  imports Main "HOL-Library.Multiset"
begin

section \<open>Errors\<close>

text \<open>
  Go error values. \<^verbatim>\<open>fmt.Errorf("<tag>: %w", err)\<close> wraps an error under a textual
  tag; the two formatted tags of the source (\<^verbatim>\<open>"worker %d: %w"\<close> in bucket.go and
  \<^verbatim>\<open>"pipeline %s failed: %w"\<close> in manager.go) keep their argument as a field.
  A nil error is \<open>None\<close>.
\<close>

datatype error =
    Msg string
  | Tag string error
  | WorkerTag nat error
  | PipelineTag string error

section \<open>Package bucket\<close>

subsection \<open>Configuration and construction\<close>

text \<open>
  \<^verbatim>\<open>bucket.Config\<close>. \<open>Timeout\<close> is a \<^verbatim>\<open>time.Duration\<close>, a count of nanoseconds.
  The fields are only compared with zero and overwritten by constants, so no
  arithmetic can overflow and they are modelled as integers.
\<close>

record Config =
  BatchSize :: int
  Timeout :: int
  WorkerNum :: int

definition Second :: int where
  "Second = 1000000000"

text \<open>
  A buffered Go channel: the queued elements, whether it has been closed, and its
  capacity. An operation on it returns, blocks, or panics.
\<close>

record 'a chan =
  buf :: "'a list"
  closed :: bool
  cap :: nat

datatype 'r res = Blocked | Panic | Ok 'r

definition make_chan :: "nat \<Rightarrow> 'a chan" where
  "make_chan n = \<lparr>buf = [], closed = False, cap = n\<rparr>"

definition chan_send :: "'a \<Rightarrow> 'a chan \<Rightarrow> 'a chan res" where
  "chan_send x c =
     (if closed c then Panic
      else if length (buf c) < cap c then Ok (c\<lparr>buf := buf c @ [x]\<rparr>)
      else Blocked)"

definition chan_close :: "'a chan \<Rightarrow> 'a chan res" where
  "chan_close c = (if closed c then Panic else Ok (c\<lparr>closed := True\<rparr>))"

text \<open>
  A receive takes the oldest queued element; on a closed and drained channel it
  returns at once with \<^verbatim>\<open>ok = false\<close> (\<open>None\<close>); otherwise it blocks.
\<close>

definition chan_recv :: "'a chan \<Rightarrow> ('a option \<times> 'a chan) res" where
  "chan_recv c =
     (case buf c of
        x # rest \<Rightarrow> Ok (Some x, c\<lparr>buf := rest\<rparr>)
      | [] \<Rightarrow> if closed c then Ok (None, c) else Blocked)"

record 'a Bucket =
  cfg :: Config
  consumer :: "'a chan"

text \<open>
  \<^verbatim>\<open>bucket.New\<close> overwrites the non-positive fields of the configuration it is
  given and copies the result into the bucket; it never returns an error.
\<close>

definition clamp_Config :: "Config \<Rightarrow> Config" where
  "clamp_Config c0 =
     (let c1 = (if BatchSize c0 \<le> 0 then c0\<lparr>BatchSize := 100\<rparr> else c0);
          c2 = (if Timeout c1 \<le> 0 then c1\<lparr>Timeout := 5 * Second\<rparr> else c1);
          c3 = (if WorkerNum c2 \<le> 0 then c2\<lparr>WorkerNum := 1\<rparr> else c2)
      in c3)"

definition New :: "Config \<Rightarrow> 'a Bucket" where
  "New c0 = (let c = clamp_Config c0
             in \<lparr>cfg = c, consumer = make_chan (nat (BatchSize c))\<rparr>)"

definition Consume :: "'a Bucket \<Rightarrow> 'a \<Rightarrow> 'a Bucket res" where
  "Consume b item =
     (case chan_send item (consumer b) of
        Ok c \<Rightarrow> Ok (b\<lparr>consumer := c\<rparr>)
      | Panic \<Rightarrow> Panic
      | Blocked \<Rightarrow> Blocked)"

definition Close :: "'a Bucket \<Rightarrow> 'a Bucket res" where
  "Close b =
     (case chan_close (consumer b) of
        Ok c \<Rightarrow> Ok (b\<lparr>consumer := c\<rparr>)
      | Panic \<Rightarrow> Panic
      | Blocked \<Rightarrow> Blocked)"

subsection \<open>The flush closure of a worker\<close>

text \<open>
  A batch handler (\<^verbatim>\<open>ProcessFunc\<close>) is called with a batch and may change the state
  of the world \<open>'h\<close> it operates on. \<open>flush\<close> returns the handler's error, the
  worker's queue afterwards, and the new world.
\<close>

type_synonym ('a, 'h) ProcessFunc = "'a list \<Rightarrow> 'h \<Rightarrow> error option \<times> 'h"

definition flush :: "('a, 'h) ProcessFunc \<Rightarrow> 'a list \<Rightarrow> 'h \<Rightarrow> error option \<times> 'a list \<times> 'h" where
  "flush processFunc queue h =
     (if length queue > 0 then
        (case processFunc queue h of
           (Some err, h') \<Rightarrow> (Some err, queue, h')
         | (None, h') \<Rightarrow> (None, [], h'))
      else (None, queue, h))"

subsection \<open>Producer, workers and the shared state of a run\<close>

text \<open>
  The goroutine that fills the bucket is either a client that calls \<open>Consume\<close> and
  \<open>Close\<close> in some order, or the feeder of \<^verbatim>\<open>ETL.Run\<close>, which reads the extraction
  stream (a list of payloads followed by the closing of the extractor channel).
\<close>

datatype 'a op = PConsume 'a | PClose

record 'e Payload =
  Data :: 'e
  Err :: "error option"

datatype 'a producer = Client "'a op list" | Feeder "'a Payload list"

text \<open>
  A worker goroutine is in its loop with a local queue, or \<^verbatim>\<open>b.worker\<close> has returned
  an error that the goroutine has not yet reported, or the goroutine has ended.
\<close>

datatype 'a wstate = Running "'a list" | Returned error | Exited

text \<open>
  The state of one bucket while \<^verbatim>\<open>Bucket.Run\<close> executes. \<open>ctx_cancelled\<close> is the
  caller's context, \<open>proc_cancelled\<close> the \<^verbatim>\<open>cancel()\<close> of the derived context
  \<^verbatim>\<open>procCtx\<close>. \<open>calls\<close>, \<open>sent\<close> and \<open>printed\<close> record what happened: every handler
  invocation (worker, batch, result), every item whose \<open>Consume\<close> returned, and
  every error the feeder printed.
\<close>

record ('a, 'h) sys =
  ch :: "'a chan"
  prod :: "'a producer"
  ws :: "'a wstate list"
  ctx_cancelled :: bool
  proc_cancelled :: bool
  errCh :: "error list"
  hst :: 'h
  calls :: "(nat \<times> 'a list \<times> error option) list"
  sent :: "'a list"
  printed :: "error list"
  panicked :: bool

definition init_sys :: "'a Bucket \<Rightarrow> 'a producer \<Rightarrow> 'h \<Rightarrow> ('a, 'h) sys" where
  "init_sys b p h =
     \<lparr>ch = consumer b, prod = p,
      ws = replicate (nat (WorkerNum (cfg b))) (Running []),
      ctx_cancelled = False, proc_cancelled = False, errCh = [],
      hst = h, calls = [], sent = [], printed = [], panicked = False\<rparr>"

subsection \<open>Steps of the producer\<close>

definition send_item :: "'a \<Rightarrow> 'a producer \<Rightarrow> ('a, 'h) sys \<Rightarrow> ('a, 'h) sys option" where
  "send_item x p' s =
     (case chan_send x (ch s) of
        Blocked \<Rightarrow> None
      | Panic \<Rightarrow> Some (s\<lparr>panicked := True\<rparr>)
      | Ok c \<Rightarrow> Some (s\<lparr>ch := c, prod := p', sent := sent s @ [x]\<rparr>))"

definition close_chan :: "'a producer \<Rightarrow> ('a, 'h) sys \<Rightarrow> ('a, 'h) sys option" where
  "close_chan p' s =
     (case chan_close (ch s) of
        Blocked \<Rightarrow> None
      | Panic \<Rightarrow> Some (s\<lparr>panicked := True\<rparr>)
      | Ok c \<Rightarrow> Some (s\<lparr>ch := c, prod := p'\<rparr>))"

text \<open>
  The next operation of the producer. The feeder closes the bucket and returns when
  the extractor channel is closed or a payload carries an error (which it prints);
  otherwise it submits the payload's data.
\<close>

definition produce_step :: "('a, 'h) sys \<Rightarrow> ('a, 'h) sys option" where
  "produce_step s =
     (case prod s of
        Client [] \<Rightarrow> None
      | Client (PConsume x # ops) \<Rightarrow> send_item x (Client ops) s
      | Client (PClose # ops) \<Rightarrow> close_chan (Client ops) s
      | Feeder [] \<Rightarrow> close_chan (Client []) s
      | Feeder (payload # rest) \<Rightarrow>
          (case Err payload of
             Some e \<Rightarrow> close_chan (Client []) (s\<lparr>printed := printed s @ [e]\<rparr>)
           | None \<Rightarrow> send_item (Data payload) (Feeder rest) s))"

text \<open>The feeder's \<^verbatim>\<open>case <-ctx.Done()\<close>: close the bucket and return.\<close>

definition abort_step :: "('a, 'h) sys \<Rightarrow> ('a, 'h) sys option" where
  "abort_step s =
     (case prod s of
        Feeder stream \<Rightarrow> if ctx_cancelled s then close_chan (Client []) s else None
      | Client ops \<Rightarrow> None)"

subsection \<open>Steps of a worker\<close>

definition set_worker :: "nat \<Rightarrow> 'a wstate \<Rightarrow> ('a, 'h) sys \<Rightarrow> ('a, 'h) sys" where
  "set_worker i w s = s\<lparr>ws := (ws s)[i := w]\<rparr>"

definition do_flush ::
  "('a, 'h) ProcessFunc \<Rightarrow> nat \<Rightarrow> 'a list \<Rightarrow> ('a, 'h) sys \<Rightarrow> error option \<times> 'a list \<times> ('a, 'h) sys" where
  "do_flush processFunc i queue s =
     (case flush processFunc queue (hst s) of
        (r, queue', h') \<Rightarrow>
          (r, queue',
           s\<lparr>hst := h',
             calls := (if length queue > 0 then calls s @ [(i, queue, r)] else calls s)\<rparr>))"

text \<open>\<^verbatim>\<open>return flush()\<close>: the worker function ends with the result of the flush.\<close>

definition flush_return ::
  "('a, 'h) ProcessFunc \<Rightarrow> nat \<Rightarrow> 'a list \<Rightarrow> ('a, 'h) sys \<Rightarrow> ('a, 'h) sys" where
  "flush_return processFunc i queue s =
     (case do_flush processFunc i queue s of
        (Some err, queue', s') \<Rightarrow> set_worker i (Returned err) s'
      | (None, queue', s') \<Rightarrow> set_worker i Exited s')"

text \<open>\<^verbatim>\<open>if err := flush(); err != nil { return err }\<close>, then the loop goes on.\<close>

definition flush_continue ::
  "('a, 'h) ProcessFunc \<Rightarrow> nat \<Rightarrow> 'a list \<Rightarrow> ('a, 'h) sys \<Rightarrow> ('a, 'h) sys" where
  "flush_continue processFunc i queue s =
     (case do_flush processFunc i queue s of
        (Some err, queue', s') \<Rightarrow> set_worker i (Returned err) s'
      | (None, queue', s') \<Rightarrow> set_worker i (Running queue') s')"

text \<open>The \<^verbatim>\<open>case item, ok := <-b.consumer\<close> branch of the worker's select.\<close>

definition recv_step ::
  "Config \<Rightarrow> ('a, 'h) ProcessFunc \<Rightarrow> nat \<Rightarrow> 'a list \<Rightarrow> ('a, 'h) sys \<Rightarrow> ('a, 'h) sys option" where
  "recv_step c processFunc i queue s =
     (case chan_recv (ch s) of
        Blocked \<Rightarrow> None
      | Panic \<Rightarrow> None
      | Ok (None, c') \<Rightarrow> Some (flush_return processFunc i queue s)
      | Ok (Some item, c') \<Rightarrow>
          (let queue' = queue @ [item]; s' = s\<lparr>ch := c'\<rparr>
           in if int (length queue') \<ge> BatchSize c
              then Some (flush_continue processFunc i queue' s')
              else Some (set_worker i (Running queue') s')))"

text \<open>
  What the goroutine around \<^verbatim>\<open>b.worker\<close> does with a non-nil error: a non-blocking
  send on \<open>errCh\<close> (capacity \<open>WorkerNum\<close>), then \<^verbatim>\<open>cancel()\<close>.
\<close>

definition report_step :: "Config \<Rightarrow> nat \<Rightarrow> error \<Rightarrow> ('a, 'h) sys \<Rightarrow> ('a, 'h) sys" where
  "report_step c i err s =
     set_worker i Exited
       (s\<lparr>errCh := (if int (length (errCh s)) < WorkerNum c
                    then errCh s @ [WorkerTag i err] else errCh s),
          proc_cancelled := True\<rparr>)"

subsection \<open>Schedules\<close>

text \<open>
  One step of one goroutine. \<open>Produce\<close> is the producer's next operation and
  \<open>Abort\<close> the feeder taking its \<^verbatim>\<open>ctx.Done()\<close> case. \<open>Recv i\<close> is worker \<open>i\<close>
  taking the receive case of its select, \<open>Tick i\<close> its ticker case and \<open>CtxDone i\<close>
  its \<^verbatim>\<open>ctx.Done()\<close> case; \<open>Report i\<close> is the goroutine of worker \<open>i\<close> sending the
  error on \<open>errCh\<close> and cancelling. \<open>Cancel\<close> is the caller cancelling the context
  given to \<open>Run\<close>. Steps are atomic: a handler invocation is part of the step of the
  worker that flushes. A step that is not enabled (the goroutine is blocked or has
  ended, or the program has panicked) is \<open>None\<close>. A schedule is the list of steps
  taken, in order; the ticker may fire at any time, so \<open>Tick i\<close> is always enabled for
  a running worker.
\<close>

datatype action = Produce | Abort | Recv nat | Tick nat | CtxDone nat | Report nat | Cancel

definition worker_at :: "('a, 'h) sys \<Rightarrow> nat \<Rightarrow> 'a wstate option" where
  "worker_at s i = (if i < length (ws s) then Some (ws s ! i) else None)"

fun act :: "Config \<Rightarrow> ('a, 'h) ProcessFunc \<Rightarrow> action \<Rightarrow> ('a, 'h) sys \<Rightarrow> ('a, 'h) sys option" where
  "act c f Produce s = produce_step s"
| "act c f Abort s = abort_step s"
| "act c f Cancel s = Some (s\<lparr>ctx_cancelled := True\<rparr>)"
| "act c f (Recv i) s =
     (case worker_at s i of Some (Running queue) \<Rightarrow> recv_step c f i queue s | _ \<Rightarrow> None)"
| "act c f (Tick i) s =
     (case worker_at s i of Some (Running queue) \<Rightarrow> Some (flush_continue f i queue s) | _ \<Rightarrow> None)"
| "act c f (CtxDone i) s =
     (case worker_at s i of
        Some (Running queue) \<Rightarrow>
          if ctx_cancelled s \<or> proc_cancelled s then Some (flush_return f i queue s) else None
      | _ \<Rightarrow> None)"
| "act c f (Report i) s =
     (case worker_at s i of Some (Returned err) \<Rightarrow> Some (report_step c i err s) | _ \<Rightarrow> None)"

definition step :: "Config \<Rightarrow> ('a, 'h) ProcessFunc \<Rightarrow> action \<Rightarrow> ('a, 'h) sys \<Rightarrow> ('a, 'h) sys option" where
  "step c f a s = (if panicked s then None else act c f a s)"

fun run_sched ::
  "Config \<Rightarrow> ('a, 'h) ProcessFunc \<Rightarrow> action list \<Rightarrow> ('a, 'h) sys \<Rightarrow> ('a, 'h) sys option" where
  "run_sched c f [] s = Some s"
| "run_sched c f (a # as) s =
     (case step c f a s of None \<Rightarrow> None | Some s' \<Rightarrow> run_sched c f as s')"

subsection \<open>Bucket.Run\<close>

text \<open>
  \<^verbatim>\<open>wg.Wait()\<close> returns when every worker goroutine has ended; \<open>Run\<close> then returns the
  first error in \<open>errCh\<close>, or nil.
\<close>

definition all_exited :: "('a, 'h) sys \<Rightarrow> bool" where
  "all_exited s = (\<not> panicked s \<and> list_all (\<lambda>w. w = Exited) (ws s))"

definition first_error :: "('a, 'h) sys \<Rightarrow> error option" where
  "first_error s = (case errCh s of [] \<Rightarrow> None | err # rest \<Rightarrow> Some err)"

text \<open>
  \<open>Bucket.Run\<close> under a schedule: \<open>None\<close> when the schedule is not one of the run or
  leaves a worker unfinished (the call has not returned), otherwise the returned
  error and the final state.
\<close>

definition Bucket_Run ::
  "('a, 'h) ProcessFunc \<Rightarrow> 'a Bucket \<Rightarrow> 'a producer \<Rightarrow> 'h \<Rightarrow> action list \<Rightarrow>
     (error option \<times> ('a, 'h) sys) option" where
  "Bucket_Run processFunc b p h sched =
     (case run_sched (cfg b) processFunc sched (init_sys b p h) of
        None \<Rightarrow> None
      | Some s \<Rightarrow> if all_exited s then Some (first_error s, s) else None)"

definition batches :: "('a, 'h) sys \<Rightarrow> 'a list list" where
  "batches s = map (\<lambda>call. fst (snd call)) (calls s)"

section \<open>Package etl: the orchestrator\<close>

text \<open>
  A processor implements the five operations of \<^verbatim>\<open>ETLProcessor\<close> over a state \<open>'s\<close>
  of its own (connections, destination tables). \<open>Extract\<close> returns an error or the
  stream of payloads its channel will deliver. Every invocation of an operation is
  recorded in a trace kept beside the processor's state.
\<close>

record ('e, 't, 's) ETLProcessor =
  Extract :: "'s \<Rightarrow> (error + 'e Payload list) \<times> 's"
  Transform :: "'e \<Rightarrow> 't"
  Load :: "'t list \<Rightarrow> 's \<Rightarrow> error option \<times> 's"
  PreProcess :: "'s \<Rightarrow> error option \<times> 's"
  PostProcess :: "'s \<Rightarrow> error option \<times> 's"

datatype call = CPreProcess | CExtract | CLoad | CPostProcess

type_synonym 's traced = "'s \<times> call list"

definition invoke :: "call \<Rightarrow> ('s \<Rightarrow> 'r \<times> 's) \<Rightarrow> 's traced \<Rightarrow> 'r \<times> 's traced" where
  "invoke c m st = (case m (fst st) of (r, s') \<Rightarrow> (r, (s', snd st @ [c])))"

definition ETL_PreProcess :: "('e, 't, 's) ETLProcessor \<Rightarrow> 's traced \<Rightarrow> error option \<times> 's traced" where
  "ETL_PreProcess processor st = invoke CPreProcess (PreProcess processor) st"

definition ETL_PostProcess :: "('e, 't, 's) ETLProcessor \<Rightarrow> 's traced \<Rightarrow> error option \<times> 's traced" where
  "ETL_PostProcess processor st = invoke CPostProcess (PostProcess processor) st"

text \<open>The batch handler of \<^verbatim>\<open>ETL.Run\<close>: transform every item, then load the batch.\<close>

definition process_batch :: "('e, 't, 's) ETLProcessor \<Rightarrow> ('e, 's traced) ProcessFunc" where
  "process_batch processor items st =
     (let transformed = map (Transform processor) items
      in invoke CLoad (Load processor transformed) st)"

text \<open>
  \<^verbatim>\<open>ETL.Run\<close> under a schedule of its bucket's goroutines (feeder and workers);
  \<open>None\<close> when \<^verbatim>\<open>b.Run\<close> does not return under that schedule.
\<close>

definition ETL_Run ::
  "('e, 't, 's) ETLProcessor \<Rightarrow> Config \<Rightarrow> action list \<Rightarrow> 's traced \<Rightarrow>
     (error option \<times> 's traced) option" where
  "ETL_Run processor bucketCfg sched st =
     (case invoke CPreProcess (PreProcess processor) st of
        (Some err, st1) \<Rightarrow> Some (Some (Tag ''failed to pre-process'' err), st1)
      | (None, st1) \<Rightarrow>
          (let b = New bucketCfg in
           case invoke CExtract (Extract processor) st1 of
             (Inl err, st2) \<Rightarrow> Some (Some (Tag ''failed to extract'' err), st2)
           | (Inr extractor, st2) \<Rightarrow>
               (case Bucket_Run (process_batch processor) b (Feeder extractor) st2 sched of
                  None \<Rightarrow> None
                | Some (Some err, s) \<Rightarrow> Some (Some (Tag ''failed to run ETL'' err), hst s)
                | Some (None, s) \<Rightarrow>
                    (case invoke CPostProcess (PostProcess processor) (hst s) of
                       (Some err, st3) \<Rightarrow> Some (Some (Tag ''failed to post-process'' err), st3)
                     | (None, st3) \<Rightarrow> Some (None, st3)))))"

section \<open>Package etl: the manager\<close>

text \<open>
  An \<^verbatim>\<open>ETLRunner\<close> has a name and a \<open>Run\<close>; \<open>'o\<close> is whatever decides the
  interleaving inside one run (for a pipeline, the schedule of its bucket), \<open>'s\<close>
  the state the runner works on. \<open>Run\<close> is \<open>None\<close> when the run does not return.
\<close>

record ('o, 's) ETLRunner =
  Name :: string
  Run :: "Config \<Rightarrow> 'o \<Rightarrow> 's \<Rightarrow> (error option \<times> 's) option"

record etl_Config =
  etl_WorkerNum :: int

record ('o, 's) Manager =
  pipelines :: "('o, 's) ETLRunner list"
  mcfg :: etl_Config
  bucketConfig :: Config

definition NewManager :: "etl_Config \<Rightarrow> Config \<Rightarrow> ('o, 's) Manager" where
  "NewManager c bc =
     (let c' = (if etl_WorkerNum c \<le> 0 then c\<lparr>etl_WorkerNum := 4\<rparr> else c)
      in \<lparr>pipelines = [], mcfg = c', bucketConfig = bc\<rparr>)"

definition addPipelineInternal :: "('o, 's) Manager \<Rightarrow> ('o, 's) ETLRunner \<Rightarrow> ('o, 's) Manager" where
  "addPipelineInternal m runner = m\<lparr>pipelines := pipelines m @ [runner]\<rparr>"

definition AddRunner :: "('o, 's) Manager \<Rightarrow> ('o, 's) ETLRunner \<Rightarrow> ('o, 's) Manager" where
  "AddRunner m runner = m\<lparr>pipelines := pipelines m @ [runner]\<rparr>"

text \<open>\<^verbatim>\<open>pipelineAdapter.Run\<close>: pre-process, the main ETL run, post-process.\<close>

record ('e, 't, 's) pipelineAdapter =
  etl :: "('e, 't, 's) ETLProcessor"
  name :: string

definition pipelineAdapter_Run ::
  "('e, 't, 's) pipelineAdapter \<Rightarrow> Config \<Rightarrow> action list \<Rightarrow> 's traced \<Rightarrow>
     (error option \<times> 's traced) option" where
  "pipelineAdapter_Run a bucketCfg sched st =
     (case ETL_PreProcess (etl a) st of
        (Some err, st1) \<Rightarrow> Some (Some (Tag ''pre-process failed'' err), st1)
      | (None, st1) \<Rightarrow>
          (case ETL_Run (etl a) bucketCfg sched st1 of
             None \<Rightarrow> None
           | Some (Some err, st2) \<Rightarrow> Some (Some (Tag ''ETL run failed'' err), st2)
           | Some (None, st2) \<Rightarrow>
               (case ETL_PostProcess (etl a) st2 of
                  (Some err, st3) \<Rightarrow> Some (Some (Tag ''post-process failed'' err), st3)
                | (None, st3) \<Rightarrow> Some (None, st3))))"

definition NewETL :: "('e, 't, 's) ETLProcessor \<Rightarrow> ('e, 't, 's) ETLProcessor" where
  "NewETL processor = processor"

text \<open>The adapter as an \<^verbatim>\<open>ETLRunner\<close>: its methods \<^verbatim>\<open>Name()\<close> and \<^verbatim>\<open>Run()\<close>.\<close>

definition as_ETLRunner ::
  "('e, 't, 's) pipelineAdapter \<Rightarrow> (action list, 's traced) ETLRunner" where
  "as_ETLRunner a = \<lparr>Name = name a, Run = pipelineAdapter_Run a\<rparr>"

definition AddPipelineGeneric ::
  "(action list, 's traced) Manager \<Rightarrow> ('e, 't, 's) ETLProcessor \<Rightarrow> string \<Rightarrow>
     (action list, 's traced) Manager" where
  "AddPipelineGeneric m processor nm =
     (let adapter = \<lparr>etl = NewETL processor, name = nm\<rparr>
      in addPipelineInternal m (as_ETLRunner adapter))"

subsection \<open>RunAll\<close>

text \<open>
  Each launched goroutine waits for a slot of the semaphore (a channel of capacity
  \<open>WorkerNum\<close>), runs its pipeline, sends the outcome on \<open>results\<close> (capacity: the
  number of pipelines, so the send never blocks) and frees the slot. \<open>ran\<close> records
  the pipelines whose \<open>Run\<close> has returned, in that order, each with the error its
  \<open>Run\<close> returned.
\<close>

datatype task = Launched | Active | Finished

record 's msys =
  tasks :: "task list"
  sem :: nat
  results :: "error option list"
  worlds :: "'s list"
  ran :: "(nat \<times> error option) list"

datatype 'o maction = Acquire nat | Complete nat 'o

definition pipeline_outcome :: "string \<Rightarrow> error option \<Rightarrow> error option" where
  "pipeline_outcome nm r = (case r of Some err \<Rightarrow> Some (PipelineTag nm err) | None \<Rightarrow> None)"

fun mstep :: "('o, 's) Manager \<Rightarrow> 'o maction \<Rightarrow> 's msys \<Rightarrow> 's msys option" where
  "mstep m (Acquire i) s =
     (if i < length (tasks s) \<and> tasks s ! i = Launched \<and> int (sem s) < etl_WorkerNum (mcfg m)
      then Some (s\<lparr>tasks := (tasks s)[i := Active], sem := sem s + 1\<rparr>)
      else None)"
| "mstep m (Complete i oracle) s =
     (if i < length (tasks s) \<and> i < length (worlds s) \<and> tasks s ! i = Active
      then (case Run (pipelines m ! i) (bucketConfig m) oracle (worlds s ! i) of
              None \<Rightarrow> None
            | Some (r, w') \<Rightarrow>
                Some (s\<lparr>tasks := (tasks s)[i := Finished], sem := sem s - 1,
                        results := results s @ [pipeline_outcome (Name (pipelines m ! i)) r],
                        worlds := (worlds s)[i := w'], ran := ran s @ [(i, r)]\<rparr>))
      else None)"

fun mrun :: "('o, 's) Manager \<Rightarrow> 'o maction list \<Rightarrow> 's msys \<Rightarrow> 's msys option" where
  "mrun m [] s = Some s"
| "mrun m (a # as) s = (case mstep m a s of None \<Rightarrow> None | Some s' \<Rightarrow> mrun m as s')"

text \<open>\<^verbatim>\<open>for err := range results\<close>: the first non-nil entry.\<close>

fun first_failure :: "error option list \<Rightarrow> error option" where
  "first_failure [] = None"
| "first_failure (Some err # rest) = Some err"
| "first_failure (None # rest) = first_failure rest"

definition minit :: "('o, 's) Manager \<Rightarrow> 's list \<Rightarrow> 's msys" where
  "minit m ws0 =
     \<lparr>tasks = replicate (length (pipelines m)) Launched, sem = 0, results = [],
      worlds = ws0, ran = []\<rparr>"

text \<open>
  \<open>RunAll\<close> on the states \<open>ws0\<close> of the pipelines, under a schedule: the returned
  error and the final state of the run (unchanged initial state when nothing was
  launched), or \<open>None\<close> when \<^verbatim>\<open>wg.Wait()\<close> does not return under that schedule.
\<close>

definition RunAll ::
  "('o, 's) Manager \<Rightarrow> 'o maction list \<Rightarrow> 's list \<Rightarrow> (error option \<times> 's msys) option" where
  "RunAll m sched ws0 =
     (if length (pipelines m) = 0
      then Some (Some (Msg ''no pipelines registered''),
                 \<lparr>tasks = [], sem = 0, results = [], worlds = ws0, ran = []\<rparr>)
      else (case mrun m sched (minit m ws0) of
              None \<Rightarrow> None
            | Some s \<Rightarrow>
                if list_all (\<lambda>t. t = Finished) (tasks s)
                then Some (first_failure (results s), s)
                else None))"

section \<open>Derived descriptions of the steps\<close>

text \<open>
  The two uses of \<open>flush\<close> in the worker differ only in the state the worker is
  left in when the handler does not fail; \<open>settle\<close> is their common form, with
  \<open>flush_result\<close> the error of the flush and \<open>settled\<close> the worker's next state.
  \<open>emits\<close> and \<open>closes\<close> describe the two things a producer step can do: submit an
  item, or close the intake.
\<close>

definition settle ::
  "'a wstate \<Rightarrow> ('a, 'h) ProcessFunc \<Rightarrow> nat \<Rightarrow> 'a list \<Rightarrow> ('a, 'h) sys \<Rightarrow> ('a, 'h) sys" where
  "settle w_ok f i queue s =
     (if queue = [] then set_worker i w_ok s
      else (case f queue (hst s) of
              (r, h') \<Rightarrow>
                set_worker i (case r of None \<Rightarrow> w_ok | Some err \<Rightarrow> Returned err)
                  (s\<lparr>hst := h', calls := calls s @ [(i, queue, r)]\<rparr>)))"

definition flush_result :: "('a, 'h) ProcessFunc \<Rightarrow> 'a list \<Rightarrow> 'h \<Rightarrow> error option" where
  "flush_result f queue h = (if queue = [] then None else fst (f queue h))"

definition settled :: "'a wstate \<Rightarrow> error option \<Rightarrow> 'a wstate" where
  "settled w_ok r = (case r of None \<Rightarrow> w_ok | Some err \<Rightarrow> Returned err)"

definition emits :: "'a producer \<Rightarrow> 'a \<Rightarrow> 'a producer \<Rightarrow> bool" where
  "emits p x p' =
     (case p of
        Client (PConsume y # ops) \<Rightarrow> x = y \<and> p' = Client ops
      | Feeder (payload # rest) \<Rightarrow> Err payload = None \<and> x = Data payload \<and> p' = Feeder rest
      | _ \<Rightarrow> False)"

definition closes :: "action \<Rightarrow> ('a, 'h) sys \<Rightarrow> 'a producer \<Rightarrow> error list \<Rightarrow> bool" where
  "closes a s p' pr =
     (case prod s of
        Client (PClose # ops) \<Rightarrow> a = Produce \<and> p' = Client ops \<and> pr = printed s
      | Client _ \<Rightarrow> False
      | Feeder stream \<Rightarrow>
          p' = Client [] \<and>
          (a = Abort \<and> ctx_cancelled s \<and> pr = printed s \<or>
           a = Produce \<and>
           (case stream of
              [] \<Rightarrow> pr = printed s
            | payload # rest \<Rightarrow> (case Err payload of Some e \<Rightarrow> pr = printed s @ [e] | None \<Rightarrow> False))))"

section \<open>Properties of a run\<close>

subsection \<open>Where the submitted items are\<close>

text \<open>
  \<open>accounted\<close>: every item whose \<open>Consume\<close> returned is in the intake, in the local
  queue of a running worker, or in a batch that was handed to the handler.
\<close>

definition queued :: "'a wstate \<Rightarrow> 'a multiset" where
  "queued w = (case w of Running queue \<Rightarrow> mset queue | _ \<Rightarrow> {#})"

definition held :: "('a, 'h) sys \<Rightarrow> 'a multiset" where
  "held s = sum_list (map queued (ws s))"

definition accounted :: "('a, 'h) sys \<Rightarrow> bool" where
  "accounted s = (mset (sent s) = mset (buf (ch s)) + held s + mset (concat (batches s)))"

subsection \<open>Runs without failure and without cancellation\<close>

text \<open>
  \<open>no_failures\<close>: no handler invocation so far returned an error. As long as that is
  so and the context is not cancelled, nothing is cancelled, nothing is in \<open>errCh\<close>,
  and a worker has ended only on a closed and drained intake (\<open>undisturbed\<close>).
  \<open>never_fails\<close> is a handler that succeeds on every batch in every state.
\<close>

definition no_failures :: "('a, 'h) sys \<Rightarrow> bool" where
  "no_failures s = list_all (\<lambda>call. snd (snd call) = None) (calls s)"

definition at_rest :: "('a, 'h) sys \<Rightarrow> 'a wstate \<Rightarrow> bool" where
  "at_rest s w =
     (case w of
        Running queue \<Rightarrow> True
      | Returned err \<Rightarrow> False
      | Exited \<Rightarrow> closed (ch s) \<and> buf (ch s) = [])"

definition quiet :: "('a, 'h) sys \<Rightarrow> bool" where
  "quiet s =
     (\<not> ctx_cancelled s \<and> \<not> proc_cancelled s \<and> errCh s = [] \<and> list_all (at_rest s) (ws s))"

definition undisturbed :: "('a, 'h) sys \<Rightarrow> bool" where
  "undisturbed s = (no_failures s \<longrightarrow> quiet s)"

definition never_fails :: "('a, 'h) ProcessFunc \<Rightarrow> bool" where
  "never_fails f = (\<forall>queue h. fst (f queue h) = None)"

subsection \<open>Failures and the error channel\<close>

text \<open>
  \<open>failures\<close> lists the errors of the failed handler invocations, each tagged with its
  worker as the goroutine tags it. \<open>reported_all\<close>: each of them is in \<open>errCh\<close> or
  still held by a worker that has returned and not yet reported. \<open>room\<close>: \<open>errCh\<close>
  never holds more errors than workers have ended, so its capacity \<open>WorkerNum\<close> is
  never exhausted. \<open>flagged\<close>: an error in \<open>errCh\<close> means \<^verbatim>\<open>cancel()\<close> was called.
\<close>

definition failures :: "('a, 'h) sys \<Rightarrow> error list" where
  "failures s =
     concat (map (\<lambda>call. case snd (snd call) of Some err \<Rightarrow> [WorkerTag (fst call) err] | None \<Rightarrow> [])
               (calls s))"

definition pending_at :: "nat \<Rightarrow> 'a wstate \<Rightarrow> error multiset" where
  "pending_at i w = (case w of Returned err \<Rightarrow> {#WorkerTag i err#} | _ \<Rightarrow> {#})"

definition pending_list :: "nat \<Rightarrow> 'a wstate list \<Rightarrow> error multiset" where
  "pending_list n xs = sum_list (map (\<lambda>jw. pending_at (fst jw) (snd jw)) (enumerate n xs))"

definition reported_all :: "('a, 'h) sys \<Rightarrow> bool" where
  "reported_all s = (mset (failures s) = mset (errCh s) + pending_list 0 (ws s))"

definition exited_count :: "('a, 'h) sys \<Rightarrow> nat" where
  "exited_count s = length (filter (\<lambda>w. w = Exited) (ws s))"

definition room :: "Config \<Rightarrow> ('a, 'h) sys \<Rightarrow> bool" where
  "room c s = (length (ws s) = nat (WorkerNum c) \<and> length (errCh s) \<le> exited_count s)"

definition invariants :: "Config \<Rightarrow> ('a, 'h) sys \<Rightarrow> bool" where
  "invariants c s = (accounted s \<and> reported_all s \<and> room c s)"


subsection \<open>What is left to do once the run is cancelled\<close>






section \<open>The batches of a single worker\<close>

text \<open>
  The batches the specification expects from one worker: successive chunks of \<open>n\<close>
  items in submission order, the last one holding the remainder. This function
  follows the specification's words; it is compared below with what \<open>Run\<close> delivers.
\<close>

function chunks :: "nat \<Rightarrow> 'a list \<Rightarrow> 'a list list" where
  "chunks n xs = (if n = 0 \<or> xs = [] then [] else take n xs # chunks n (drop n xs))"
  by pat_completeness auto

termination
  by (relation "measure (\<lambda>(n, xs). length xs)") auto

text \<open>
  \<open>in_order\<close> relates the state of a run with one worker, fed the items \<open>xs\<close> and
  then closed, to these chunks: while the worker runs, the batches delivered so far
  are full chunks and the items not yet delivered follow in order; once it has
  ended, the batches are exactly the chunks. \<open>lockstep\<close> is the schedule in which
  the worker takes every item as soon as it is submitted.
\<close>

definition is_Tick :: "action \<Rightarrow> bool" where
  "is_Tick a = (case a of Tick i \<Rightarrow> True | _ \<Rightarrow> False)"

definition feeding :: "nat \<Rightarrow> 'a list \<Rightarrow> ('a, 'h) sys \<Rightarrow> 'a list \<Rightarrow> bool" where
  "feeding B xs s queue =
     (length queue < B \<and> list_all (\<lambda>b. length b = B) (batches s) \<and>
      (\<exists>rest. xs = concat (batches s) @ queue @ buf (ch s) @ rest \<and>
              (if closed (ch s) then rest = [] \<and> prod s = Client []
               else prod s = Client (map PConsume rest @ [PClose]))))"

definition in_order :: "nat \<Rightarrow> 'a list \<Rightarrow> ('a, 'h) sys \<Rightarrow> bool" where
  "in_order B xs s =
     (no_failures s \<longrightarrow>
        (case ws s of
           [Running queue] \<Rightarrow> feeding B xs s queue
         | [Exited] \<Rightarrow> batches s = chunks B xs
         | _ \<Rightarrow> False))"

definition lockstep :: "'a list \<Rightarrow> action list" where
  "lockstep xs = concat (map (\<lambda>x. [Produce, Recv 0]) xs) @ [Produce, Recv 0]"

section \<open>Properties of the orchestrator and the manager\<close>

text \<open>
  \<open>setup_calls\<close> are the invocations of a processor other than its batch loads.
\<close>

definition setup_calls :: "call list \<Rightarrow> call list" where
  "setup_calls trace = filter (\<lambda>c. c \<noteq> CLoad) trace"

text \<open>
  For a run of the manager: \<open>outcomes\<close> are the values sent on \<open>results\<close> for the
  pipelines that ran, \<open>finished\<close> the tasks that have ended, and \<open>ran_ok\<close> says that
  an entry of \<open>ran\<close> is a run of that pipeline from its initial state to its
  present state. \<open>mwf\<close> collects what every state of \<open>RunAll\<close> satisfies.
  \<open>one_by_one\<close> is the schedule that runs the pipelines one after the other, each
  under its own oracle, and \<open>can_run\<close> says that each of these runs returns.
\<close>

definition outcomes :: "('o, 's) Manager \<Rightarrow> (nat \<times> error option) list \<Rightarrow> error option list" where
  "outcomes m rs = map (\<lambda>ir. pipeline_outcome (Name (pipelines m ! fst ir)) (snd ir)) rs"

definition finished :: "'s msys \<Rightarrow> nat set" where
  "finished s = {i. i < length (tasks s) \<and> tasks s ! i = Finished}"

definition ran_ok :: "('o, 's) Manager \<Rightarrow> 's list \<Rightarrow> 's msys \<Rightarrow> nat \<times> error option \<Rightarrow> bool" where
  "ran_ok m ws0 s ir =
     (fst ir < length ws0 \<and>
      (\<exists>oracle. Run (pipelines m ! fst ir) (bucketConfig m) oracle (ws0 ! fst ir) =
                  Some (snd ir, worlds s ! fst ir)))"

definition mwf :: "('o, 's) Manager \<Rightarrow> 's list \<Rightarrow> 's msys \<Rightarrow> bool" where
  "mwf m ws0 s =
     (length (tasks s) = length (pipelines m) \<and> length (worlds s) = length ws0 \<and>
      results s = outcomes m (ran s) \<and> distinct (map fst (ran s)) \<and>
      set (map fst (ran s)) = finished s \<and>
      list_all (ran_ok m ws0 s) (ran s) \<and>
      (\<forall>i < length ws0. i \<notin> finished s \<longrightarrow> worlds s ! i = ws0 ! i))"



section \<open>Example data\<close>

text \<open>
  Concrete configurations, handlers, processors and schedules on which the results
  below are instantiated. \<open>run_summary\<close> and \<open>feeder_summary\<close> project the outcome
  of a run to the returned error and what was submitted, delivered and printed.
\<close>

definition example_bucket_cfg :: Config where
  "example_bucket_cfg = \<lparr>BatchSize = 3, Timeout = 100000000, WorkerNum = 1\<rparr>"

definition one_item_cfg :: Config where
  "one_item_cfg = \<lparr>BatchSize = 1, Timeout = 100000000, WorkerNum = 1\<rparr>"

definition two_workers_cfg :: Config where
  "two_workers_cfg = \<lparr>BatchSize = 2, Timeout = 100000000, WorkerNum = 2\<rparr>"

definition ok_handler :: "(nat, unit) ProcessFunc" where
  "ok_handler items h = (None, h)"

definition failing_handler :: "(nat, unit) ProcessFunc" where
  "failing_handler items h = (Some (Msg ''load failed''), h)"


definition one_worker_state :: "(nat, unit) sys" where
  "one_worker_state =
     (init_sys (New example_bucket_cfg) (Client []) ())\<lparr>ws := [Running [1, 2]]\<rparr>"

definition seven_items_sched :: "action list" where
  "seven_items_sched =
     [Produce, Produce, Produce, Recv 0, Recv 0, Recv 0, Produce, Produce, Produce,
      Recv 0, Recv 0, Recv 0, Produce, Produce, Recv 0, Recv 0]"

definition two_workers_sched :: "action list" where
  "two_workers_sched =
     [Produce, Produce, Recv 0, Recv 1, Produce, Produce, Recv 0, Recv 0, Recv 1]"



definition run_summary ::
  "(error option \<times> ('a, 'h) sys) option \<Rightarrow> (error option \<times> 'a list \<times> 'a list list) option" where
  "run_summary = map_option (\<lambda>(r, s). (r, sent s, batches s))"

definition feeder_summary ::
  "(error option \<times> ('a, 'h) sys) option \<Rightarrow> (error option \<times> error list \<times> 'a list) option" where
  "feeder_summary = map_option (\<lambda>(r, s). (r, printed s, sent s))"

definition ok_processor :: "(nat, nat, unit) ETLProcessor" where
  "ok_processor =
     \<lparr>Extract = (\<lambda>s. (Inr [\<lparr>Data = 1, Err = None\<rparr>, \<lparr>Data = 2, Err = None\<rparr>], s)),
      Transform = Suc,
      Load = (\<lambda>batch s. (None, s)),
      PreProcess = (\<lambda>s. (None, s)),
      PostProcess = (\<lambda>s. (None, s))\<rparr>"


definition bad_extract_processor :: "(nat, nat, unit) ETLProcessor" where
  "bad_extract_processor =
     ok_processor
       \<lparr>Extract := (\<lambda>s. (Inr [\<lparr>Data = 1, Err = None\<rparr>,
                              \<lparr>Data = 0, Err = Some (Msg ''cursor error'')\<rparr>,
                              \<lparr>Data = 3, Err = None\<rparr>], s))\<rparr>"

definition ok_pipeline_sched :: "action list" where
  "ok_pipeline_sched = [Produce, Produce, Produce, Recv 0, Recv 0, Recv 0]"


definition bad_extract_sched :: "action list" where
  "bad_extract_sched = [Produce, Produce, Recv 0, Recv 0]"



definition two_pipelines :: "(action list, unit traced) Manager" where
  "two_pipelines =
     AddPipelineGeneric
       (AddPipelineGeneric (NewManager \<lparr>etl_WorkerNum = 1\<rparr> example_bucket_cfg)
          ok_processor ''A'')
       ok_processor ''C''"

definition two_pipelines_sched :: "action list maction list" where
  "two_pipelines_sched =
     [Acquire 1, Complete 1 ok_pipeline_sched, Acquire 0, Complete 0 ok_pipeline_sched]"

section \<open>Steps and schedules\<close>

text \<open>
  \<open>step_cases\<close> lists what one step of a run can be, in terms of the fields of the
  state it changes; every property of a run below is proved over these cases and
  carried along a schedule by \<open>run_sched_invariant\<close>.
\<close>

lemma flush_return_settle: "flush_return f i queue s = settle Exited f i queue s"
  by (auto simp: flush_return_def settle_def do_flush_def flush_def set_worker_def
      split: prod.splits option.splits)

lemma flush_continue_settle: "flush_continue f i queue s = settle (Running []) f i queue s"
  by (auto simp: flush_continue_def settle_def do_flush_def flush_def set_worker_def
      split: prod.splits option.splits)

lemma send_item_cases:
  assumes "send_item x p' s = Some s'"
  shows "closed (ch s) \<and> s' = s\<lparr>printed := printed s, panicked := True\<rparr> \<or>
         \<not> closed (ch s) \<and> length (buf (ch s)) < cap (ch s) \<and>
         s' = s\<lparr>ch := (ch s)\<lparr>buf := buf (ch s) @ [x]\<rparr>, prod := p', sent := sent s @ [x]\<rparr>"
  using assms by (auto simp: send_item_def chan_send_def split: if_splits)

lemma close_chan_cases:
  assumes "close_chan p' (s\<lparr>printed := pr\<rparr>) = Some s'"
  shows "closed (ch s) \<and> s' = s\<lparr>printed := pr, panicked := True\<rparr> \<or>
         \<not> closed (ch s) \<and> s' = s\<lparr>printed := pr, ch := (ch s)\<lparr>closed := True\<rparr>, prod := p'\<rparr>"
  using assms by (auto simp: close_chan_def chan_close_def split: if_splits)

lemma close_chan_cases':
  assumes "close_chan p' s = Some s'"
  shows "closed (ch s) \<and> s' = s\<lparr>printed := printed s, panicked := True\<rparr> \<or>
         \<not> closed (ch s) \<and>
         s' = s\<lparr>printed := printed s, ch := (ch s)\<lparr>closed := True\<rparr>, prod := p'\<rparr>"
  using close_chan_cases [where p' = p' and s = s and pr = "printed s" and s' = s'] assms by simp

lemma step_cases [consumes 1, case_names Panicked Sent Closed Cancelled Took Filled Drained Ticked Done Reported]:
  assumes "step c f a s = Some s'"
  obtains
    (Panicked) pr where "a = Produce \<or> a = Abort" "closed (ch s)"
      "s' = s\<lparr>printed := pr, panicked := True\<rparr>"
  | (Sent) x p' where "a = Produce" "\<not> closed (ch s)" "length (buf (ch s)) < cap (ch s)"
      "emits (prod s) x p'"
      "s' = s\<lparr>ch := (ch s)\<lparr>buf := buf (ch s) @ [x]\<rparr>, prod := p', sent := sent s @ [x]\<rparr>"
  | (Closed) p' pr where "\<not> closed (ch s)" "closes a s p' pr"
      "s' = s\<lparr>printed := pr, ch := (ch s)\<lparr>closed := True\<rparr>, prod := p'\<rparr>"
  | (Cancelled) "a = Cancel" "s' = s\<lparr>ctx_cancelled := True\<rparr>"
  | (Took) i queue x rest where "a = Recv i" "i < length (ws s)" "ws s ! i = Running queue"
      "buf (ch s) = x # rest" "int (length queue) + 1 < BatchSize c"
      "s' = set_worker i (Running (queue @ [x])) (s\<lparr>ch := (ch s)\<lparr>buf := rest\<rparr>\<rparr>)"
  | (Filled) i queue x rest where "a = Recv i" "i < length (ws s)" "ws s ! i = Running queue"
      "buf (ch s) = x # rest" "int (length queue) + 1 \<ge> BatchSize c"
      "s' = settle (Running []) f i (queue @ [x]) (s\<lparr>ch := (ch s)\<lparr>buf := rest\<rparr>\<rparr>)"
  | (Drained) i queue where "a = Recv i" "i < length (ws s)" "ws s ! i = Running queue"
      "buf (ch s) = []" "closed (ch s)" "s' = settle Exited f i queue s"
  | (Ticked) i queue where "a = Tick i" "i < length (ws s)" "ws s ! i = Running queue"
      "s' = settle (Running []) f i queue s"
  | (Done) i queue where "a = CtxDone i" "i < length (ws s)" "ws s ! i = Running queue"
      "ctx_cancelled s \<or> proc_cancelled s" "s' = settle Exited f i queue s"
  | (Reported) i err where "a = Report i" "i < length (ws s)" "ws s ! i = Returned err"
      "s' = report_step c i err s"
proof (cases a)
  case Produce
  with assms have ps: "produce_step s = Some s'"
    by (simp add: step_def split: if_splits)
  show ?thesis
  proof (cases "prod s")
    case (Client ops)
    show ?thesis
    proof (cases ops)
      case Nil
      with ps Client show ?thesis by (simp add: produce_step_def)
    next
      case (Cons o1 ops')
      show ?thesis
      proof (cases o1)
        case (PConsume x)
        with ps Client Cons have "send_item x (Client ops') s = Some s'"
          by (simp add: produce_step_def)
        from send_item_cases [OF this] show ?thesis
        proof (elim disjE conjE)
          assume "closed (ch s)" "s' = s\<lparr>printed := printed s, panicked := True\<rparr>"
          with Produce show ?thesis by (intro Panicked [of "printed s"]) simp_all
        next
          assume "\<not> closed (ch s)" "length (buf (ch s)) < cap (ch s)"
            "s' = s\<lparr>ch := (ch s)\<lparr>buf := buf (ch s) @ [x]\<rparr>, prod := Client ops', sent := sent s @ [x]\<rparr>"
          moreover have "emits (prod s) x (Client ops')"
            using Client Cons PConsume by (simp add: emits_def)
          ultimately show ?thesis using Produce by (intro Sent)
        qed
      next
        case PClose
        with ps Client Cons have "close_chan (Client ops') s = Some s'"
          by (simp add: produce_step_def)
        from close_chan_cases' [OF this] show ?thesis
        proof (elim disjE conjE)
          assume "closed (ch s)" "s' = s\<lparr>printed := printed s, panicked := True\<rparr>"
          with Produce show ?thesis by (intro Panicked [of "printed s"]) simp_all
        next
          assume "\<not> closed (ch s)"
            "s' = s\<lparr>printed := printed s, ch := (ch s)\<lparr>closed := True\<rparr>, prod := Client ops'\<rparr>"
          moreover have "closes a s (Client ops') (printed s)"
            using Client Cons PClose Produce by (simp add: closes_def)
          ultimately show ?thesis by (intro Closed)
        qed
      qed
    qed
  next
    case (Feeder stream)
    show ?thesis
    proof (cases stream)
      case Nil
      with ps Feeder have "close_chan (Client []) s = Some s'"
        by (simp add: produce_step_def)
      from close_chan_cases' [OF this] show ?thesis
      proof (elim disjE conjE)
        assume "closed (ch s)" "s' = s\<lparr>printed := printed s, panicked := True\<rparr>"
        with Produce show ?thesis by (intro Panicked [of "printed s"]) simp_all
      next
        assume "\<not> closed (ch s)"
          "s' = s\<lparr>printed := printed s, ch := (ch s)\<lparr>closed := True\<rparr>, prod := Client []\<rparr>"
        moreover have "closes a s (Client []) (printed s)"
          using Feeder Nil Produce by (simp add: closes_def)
        ultimately show ?thesis by (intro Closed)
      qed
    next
      case (Cons payload rest)
      show ?thesis
      proof (cases "Err payload")
        case None
        with ps Feeder Cons have "send_item (Data payload) (Feeder rest) s = Some s'"
          by (simp add: produce_step_def)
        from send_item_cases [OF this] show ?thesis
        proof (elim disjE conjE)
          assume "closed (ch s)" "s' = s\<lparr>printed := printed s, panicked := True\<rparr>"
          with Produce show ?thesis by (intro Panicked [of "printed s"]) simp_all
        next
          assume "\<not> closed (ch s)" "length (buf (ch s)) < cap (ch s)"
            "s' = s\<lparr>ch := (ch s)\<lparr>buf := buf (ch s) @ [Data payload]\<rparr>, prod := Feeder rest,
                     sent := sent s @ [Data payload]\<rparr>"
          moreover have "emits (prod s) (Data payload) (Feeder rest)"
            using Feeder Cons None by (simp add: emits_def)
          ultimately show ?thesis using Produce by (intro Sent)
        qed
      next
        case (Some e)
        with ps Feeder Cons have "close_chan (Client []) (s\<lparr>printed := printed s @ [e]\<rparr>) = Some s'"
          by (simp add: produce_step_def)
        from close_chan_cases [OF this] show ?thesis
        proof (elim disjE conjE)
          assume "closed (ch s)" "s' = s\<lparr>printed := printed s @ [e], panicked := True\<rparr>"
          with Produce show ?thesis by (intro Panicked [of "printed s @ [e]"]) simp_all
        next
          assume "\<not> closed (ch s)"
            "s' = s\<lparr>printed := printed s @ [e], ch := (ch s)\<lparr>closed := True\<rparr>, prod := Client []\<rparr>"
          moreover have "closes a s (Client []) (printed s @ [e])"
            using Feeder Cons Some Produce by (simp add: closes_def)
          ultimately show ?thesis by (intro Closed)
        qed
      qed
    qed
  qed
next
  case Abort
  with assms obtain stream where f: "prod s = Feeder stream" and cc: "ctx_cancelled s"
    and cl: "close_chan (Client []) s = Some s'"
    by (auto simp: step_def abort_step_def split: if_splits producer.splits)
  from close_chan_cases' [OF cl] show ?thesis
  proof (elim disjE conjE)
    assume "closed (ch s)" "s' = s\<lparr>printed := printed s, panicked := True\<rparr>"
    with Abort show ?thesis by (intro Panicked [of "printed s"]) simp_all
  next
    assume "\<not> closed (ch s)"
      "s' = s\<lparr>printed := printed s, ch := (ch s)\<lparr>closed := True\<rparr>, prod := Client []\<rparr>"
    moreover have "closes a s (Client []) (printed s)"
      using f cc Abort by (simp add: closes_def)
    ultimately show ?thesis by (intro Closed)
  qed
next
  case (Recv i)
  with assms obtain queue where i: "i < length (ws s)" and w: "ws s ! i = Running queue"
    and r: "recv_step c f i queue s = Some s'"
    by (auto simp: step_def worker_at_def split: if_splits option.splits wstate.splits)
  show ?thesis
  proof (cases "buf (ch s)")
    case Nil
    with r have "closed (ch s)" "s' = settle Exited f i queue s"
      by (auto simp: recv_step_def chan_recv_def flush_return_settle split: if_splits)
    with Recv i w Nil show ?thesis by (intro Drained)
  next
    case (Cons x rest)
    show ?thesis
    proof (cases "int (length queue) + 1 < BatchSize c")
      case True
      with r Cons have "s' = set_worker i (Running (queue @ [x])) (s\<lparr>ch := (ch s)\<lparr>buf := rest\<rparr>\<rparr>)"
        by (auto simp: recv_step_def chan_recv_def Let_def)
      with Recv i w Cons True show ?thesis by (intro Took)
    next
      case False
      with r Cons have "s' = settle (Running []) f i (queue @ [x]) (s\<lparr>ch := (ch s)\<lparr>buf := rest\<rparr>\<rparr>)"
        by (auto simp: recv_step_def chan_recv_def Let_def flush_continue_settle)
      with Recv i w Cons False show ?thesis by (intro Filled) simp_all
    qed
  qed
next
  case (Tick i)
  with assms obtain queue where "i < length (ws s)" "ws s ! i = Running queue"
    "s' = settle (Running []) f i queue s"
    by (auto simp: step_def worker_at_def flush_continue_settle
        split: if_splits option.splits wstate.splits)
  with Tick show ?thesis by (intro Ticked)
next
  case (CtxDone i)
  with assms obtain queue where "i < length (ws s)" "ws s ! i = Running queue"
    "ctx_cancelled s \<or> proc_cancelled s" "s' = settle Exited f i queue s"
    by (auto simp: step_def worker_at_def flush_return_settle
        split: if_splits option.splits wstate.splits)
  with CtxDone show ?thesis by (intro Done)
next
  case (Report i)
  with assms obtain err where "i < length (ws s)" "ws s ! i = Returned err"
    "s' = report_step c i err s"
    by (auto simp: step_def worker_at_def split: if_splits option.splits wstate.splits)
  with Report show ?thesis by (intro Reported)
next
  case Cancel
  with assms have "s' = s\<lparr>ctx_cancelled := True\<rparr>"
    by (auto simp: step_def split: if_splits)
  with Cancel show ?thesis by (intro Cancelled)
qed

lemma run_sched_invariant:
  assumes "run_sched c f sched s = Some s'" and "I s"
    and "\<And>a t t'. a \<in> set sched \<Longrightarrow> I t \<Longrightarrow> step c f a t = Some t' \<Longrightarrow> I t'"
  shows "I s'"
  using assms
proof (induction sched arbitrary: s)
  case Nil
  then show ?case by simp
next
  case (Cons a sched)
  from Cons.prems(1) obtain t where t: "step c f a s = Some t"
    and rest: "run_sched c f sched t = Some s'"
    by (auto split: option.splits)
  have first: "I t" using Cons.prems(2) t Cons.prems(3) [of a s t] by simp
  have later: "I u'" if "b \<in> set sched" "I u" "step c f b u = Some u'" for b u u'
    using Cons.prems(3) [of b u u'] that by simp
  show ?case by (rule Cons.IH [OF rest first later])
qed

lemma settle_fields [simp]:
  "ch (settle w_ok f i queue s) = ch s"
  "prod (settle w_ok f i queue s) = prod s"
  "sent (settle w_ok f i queue s) = sent s"
  "printed (settle w_ok f i queue s) = printed s"
  "panicked (settle w_ok f i queue s) = panicked s"
  "ctx_cancelled (settle w_ok f i queue s) = ctx_cancelled s"
  "proc_cancelled (settle w_ok f i queue s) = proc_cancelled s"
  "errCh (settle w_ok f i queue s) = errCh s"
  by (simp_all add: settle_def set_worker_def split: prod.splits)

lemma settle_ws:
  "ws (settle w_ok f i queue s) = (ws s)[i := settled w_ok (flush_result f queue (hst s))]"
  by (simp add: settle_def set_worker_def settled_def flush_result_def split: prod.splits)

lemma settle_calls:
  "calls (settle w_ok f i queue s) =
     calls s @ (if queue = [] then [] else [(i, queue, flush_result f queue (hst s))])"
  by (simp add: settle_def set_worker_def flush_result_def split: prod.splits)

lemma settle_hst:
  "hst (settle w_ok f i queue s) = (if queue = [] then hst s else snd (f queue (hst s)))"
  by (simp add: settle_def set_worker_def split: prod.splits)

lemma settle_batches: "concat (batches (settle w_ok f i queue s)) = concat (batches s) @ queue"
  by (simp add: batches_def settle_calls)

lemma report_step_fields [simp]:
  "ch (report_step c i err s) = ch s"
  "prod (report_step c i err s) = prod s"
  "sent (report_step c i err s) = sent s"
  "printed (report_step c i err s) = printed s"
  "panicked (report_step c i err s) = panicked s"
  "ctx_cancelled (report_step c i err s) = ctx_cancelled s"
  "proc_cancelled (report_step c i err s) = True"
  "hst (report_step c i err s) = hst s"
  "calls (report_step c i err s) = calls s"
  "ws (report_step c i err s) = (ws s)[i := Exited]"
  "errCh (report_step c i err s) =
     (if int (length (errCh s)) < WorkerNum c then errCh s @ [WorkerTag i err] else errCh s)"
  by (simp_all add: report_step_def set_worker_def)

subsection \<open>Every submitted item is accounted for\<close>

lemma queued_simps [simp]:
  "queued (Running queue) = mset queue" "queued (Returned err) = {#}" "queued Exited = {#}"
  by (simp_all add: queued_def)

lemma queued_settled [simp]: "queued w_ok = {#} \<Longrightarrow> queued (settled w_ok r) = {#}"
  by (cases r) (simp_all add: settled_def)

lemma sum_list_update_add:
  "i < length xs \<Longrightarrow>
     sum_list (map g (xs[i := y])) + g (xs ! i) = sum_list (map g xs) + (g y :: 'b :: comm_monoid_add)"
proof (induction xs arbitrary: i)
  case Nil
  then show ?case by simp
next
  case (Cons x xs)
  then show ?case by (cases i) (simp_all add: ac_simps)
qed

lemma held_update:
  assumes "i < length (ws s)" "ws s ! i = Running queue" "ws s' = (ws s)[i := w]"
  shows "held s' + mset queue = held s + queued w"
  using sum_list_update_add [of i "ws s" queued w] assms by (simp add: held_def)

lemma accounted_step:
  assumes "accounted s" and "step c f a s = Some s'"
  shows "accounted s'"
  using assms(2)
proof (cases rule: step_cases)
  case (Panicked pr)
  with assms(1) show ?thesis by (simp add: accounted_def held_def batches_def)
next
  case (Sent x p')
  with assms(1) show ?thesis by (simp add: accounted_def held_def batches_def)
next
  case (Closed p' pr)
  with assms(1) show ?thesis by (simp add: accounted_def held_def batches_def)
next
  case Cancelled
  with assms(1) show ?thesis by (simp add: accounted_def held_def batches_def)
next
  case (Took i queue x rest)
  have "held s' + mset queue = held s + queued (Running (queue @ [x]))"
    using Took by (intro held_update) (simp_all add: set_worker_def)
  with assms(1) Took show ?thesis
    by (simp add: accounted_def batches_def set_worker_def)
next
  case (Filled i queue x rest)
  have "held s' + mset queue = held s + queued (settled (Running []) (flush_result f (queue @ [x]) (hst s)))"
    using Filled by (intro held_update) (simp_all add: settle_ws)
  with assms(1) Filled show ?thesis
    by (simp add: accounted_def settle_batches) (simp add: batches_def)
next
  case (Drained i queue)
  have "held s' + mset queue = held s + queued (settled Exited (flush_result f queue (hst s)))"
    using Drained by (intro held_update) (simp_all add: settle_ws)
  with assms(1) Drained show ?thesis
    by (simp add: accounted_def settle_batches)
next
  case (Ticked i queue)
  have "held s' + mset queue = held s + queued (settled (Running []) (flush_result f queue (hst s)))"
    using Ticked by (intro held_update) (simp_all add: settle_ws)
  with assms(1) Ticked show ?thesis
    by (simp add: accounted_def settle_batches)
next
  case (Done i queue)
  have "held s' + mset queue = held s + queued (settled Exited (flush_result f queue (hst s)))"
    using Done by (intro held_update) (simp_all add: settle_ws)
  with assms(1) Done show ?thesis
    by (simp add: accounted_def settle_batches)
next
  case (Reported i err)
  have "held s' = held s"
    using Reported sum_list_update_add [of i "ws s" queued Exited] by (simp add: held_def)
  with assms(1) Reported show ?thesis
    by (simp add: accounted_def batches_def)
qed

subsection \<open>Runs without failure and without cancellation\<close>

lemma no_failures_settle:
  "no_failures (settle w_ok f i queue s) =
     (no_failures s \<and> flush_result f queue (hst s) = None)"
  by (auto simp: no_failures_def settle_calls flush_result_def)

lemma at_rest_cong:
  "ch s' = ch s \<Longrightarrow> at_rest s' w = at_rest s w"
  by (cases w) (simp_all add: at_rest_def)

lemma quiet_all_running:
  assumes "quiet s" "\<not> closed (ch s) \<or> buf (ch s) \<noteq> []"
  shows "list_all (\<lambda>w. \<exists>queue. w = Running queue) (ws s)"
  unfolding list_all_iff
proof
  fix w assume "w \<in> set (ws s)"
  with assms(1) have "at_rest s w" by (simp add: quiet_def list_all_iff)
  with assms(2) show "\<exists>queue. w = Running queue"
    by (cases w) (auto simp: at_rest_def)
qed

lemma list_all_update:
  "list_all P xs \<Longrightarrow> P y \<Longrightarrow> list_all P (xs[i := y])"
  by (auto simp: list_all_iff dest: set_update_subset_insert [THEN subsetD])

lemma all_running_at_rest:
  "list_all (\<lambda>w. \<exists>queue. w = Running queue) xs \<Longrightarrow> list_all (at_rest s) xs"
  by (auto simp: list_all_iff at_rest_def)

lemma undisturbed_step:
  assumes inv: "undisturbed s" and st: "step c f a s = Some s'" and nc: "a \<noteq> Cancel"
  shows "undisturbed s'"
  unfolding undisturbed_def
proof
  assume nf': "no_failures s'"
  from st show "quiet s'"
  proof (cases rule: step_cases)
    case (Panicked pr)
    with nf' inv show ?thesis
      by (simp add: undisturbed_def no_failures_def quiet_def at_rest_def [abs_def])
  next
    case (Sent x p')
    with nf' inv have q: "quiet s" by (simp add: undisturbed_def no_failures_def)
    from quiet_all_running [OF q] Sent(2)
    have "list_all (\<lambda>w. \<exists>queue. w = Running queue) (ws s)" by simp
    from all_running_at_rest [OF this, of s'] q Sent show ?thesis
      by (simp add: quiet_def)
  next
    case (Closed p' pr)
    with nf' inv have q: "quiet s" by (simp add: undisturbed_def no_failures_def)
    from quiet_all_running [OF q] Closed(1)
    have "list_all (\<lambda>w. \<exists>queue. w = Running queue) (ws s)" by simp
    from all_running_at_rest [OF this, of s'] q Closed show ?thesis
      by (simp add: quiet_def)
  next
    case Cancelled
    with nc show ?thesis by simp
  next
    case (Took i queue x rest)
    with nf' inv have q: "quiet s" by (simp add: undisturbed_def no_failures_def set_worker_def)
    from quiet_all_running [OF q] Took(4)
    have "list_all (\<lambda>w. \<exists>queue. w = Running queue) (ws s)" by simp
    then have "list_all (\<lambda>w. \<exists>queue. w = Running queue) (ws s')"
      using Took by (simp add: set_worker_def list_all_update)
    from all_running_at_rest [OF this, of s'] q Took show ?thesis
      by (simp add: quiet_def set_worker_def)
  next
    case (Filled i queue x rest)
    with nf' have nf: "no_failures s" and ok: "flush_result f (queue @ [x]) (hst s) = None"
      by (simp_all add: no_failures_settle) (simp add: no_failures_def)
    with inv have q: "quiet s" by (simp add: undisturbed_def)
    from quiet_all_running [OF q] Filled(4)
    have "list_all (\<lambda>w. \<exists>queue. w = Running queue) (ws s)" by simp
    then have "list_all (\<lambda>w. \<exists>queue. w = Running queue) (ws s')"
      using Filled ok by (simp add: settle_ws settled_def list_all_update)
    from all_running_at_rest [OF this, of s'] q Filled show ?thesis
      by (simp add: quiet_def)
  next
    case (Drained i queue)
    with nf' have nf: "no_failures s" and ok: "flush_result f queue (hst s) = None"
      by (simp_all add: no_failures_settle)
    with inv have q: "quiet s" by (simp add: undisturbed_def)
    have "at_rest s Exited" using Drained by (simp add: at_rest_def)
    with q have "list_all (at_rest s) (ws s')"
      using Drained ok by (simp add: settle_ws settled_def list_all_update quiet_def)
    moreover have "at_rest s' = at_rest s"
      using Drained by (intro ext at_rest_cong) simp
    ultimately show ?thesis using q Drained by (simp add: quiet_def)
  next
    case (Ticked i queue)
    with nf' have nf: "no_failures s" and ok: "flush_result f queue (hst s) = None"
      by (simp_all add: no_failures_settle)
    with inv have q: "quiet s" by (simp add: undisturbed_def)
    have "at_rest s (Running [])" by (simp add: at_rest_def)
    with q have "list_all (at_rest s) (ws s')"
      using Ticked ok by (simp add: settle_ws settled_def list_all_update quiet_def)
    moreover have "at_rest s' = at_rest s"
      using Ticked by (intro ext at_rest_cong) simp
    ultimately show ?thesis using q Ticked by (simp add: quiet_def)
  next
    case (Done i queue)
    with nf' have nf: "no_failures s" by (simp add: no_failures_settle)
    with inv Done show ?thesis by (simp add: undisturbed_def quiet_def)
  next
    case (Reported i err)
    with nf' have nf: "no_failures s" by (simp add: no_failures_def)
    with inv have "list_all (at_rest s) (ws s)" by (simp add: undisturbed_def quiet_def)
    with Reported have "at_rest s (Returned err)"
      by (auto simp: list_all_iff dest: nth_mem)
    then show ?thesis by (simp add: at_rest_def)
  qed
qed

subsection \<open>Every failure reaches the error channel\<close>

lemma pending_at_simps [simp]:
  "pending_at i (Running queue) = {#}" "pending_at i (Returned err) = {#WorkerTag i err#}"
  "pending_at i Exited = {#}"
  by (simp_all add: pending_at_def)

lemma pending_list_update:
  "i < length xs \<Longrightarrow>
     pending_list n (xs[i := y]) + pending_at (n + i) (xs ! i) =
     pending_list n xs + pending_at (n + i) y"
proof (induction xs arbitrary: n i)
  case Nil
  then show ?case by simp
next
  case (Cons x xs)
  show ?case
  proof (cases i)
    case 0
    then show ?thesis by (simp add: pending_list_def)
  next
    case (Suc k)
    with Cons.prems have "k < length xs" by simp
    from Cons.IH [OF this, of "Suc n"] Suc show ?thesis
      by (simp add: pending_list_def)
  qed
qed

lemma filter_update_count:
  "i < length xs \<Longrightarrow> \<not> P (xs ! i) \<Longrightarrow>
     length (filter P (xs[i := y])) = length (filter P xs) + (if P y then 1 else 0)"
proof (induction xs arbitrary: i)
  case Nil
  then show ?case by simp
next
  case (Cons x xs)
  then show ?case by (cases i) simp_all
qed

lemma failures_settle:
  "failures (settle w_ok f i queue s) =
     failures s @ (case flush_result f queue (hst s) of Some err \<Rightarrow> [WorkerTag i err] | None \<Rightarrow> [])"
  by (simp add: failures_def settle_calls flush_result_def split: option.splits)

lemma length_ws_settle [simp]: "length (ws (settle w_ok f i queue s)) = length (ws s)"
  by (simp add: settle_ws)

lemma pending_settle:
  assumes "i < length (ws s)" "ws s ! i = Running queue0" "pending_at i w_ok = {#}"
  shows "pending_list 0 (ws (settle w_ok f i queue s)) =
           pending_list 0 (ws s) +
           mset (case flush_result f queue (hst s) of Some err \<Rightarrow> [WorkerTag i err] | None \<Rightarrow> [])"
  using pending_list_update [OF assms(1), of 0 "settled w_ok (flush_result f queue (hst s))"] assms(2,3)
  by (cases "flush_result f queue (hst s)") (simp_all add: settle_ws settled_def)

lemma reported_all_step:
  assumes inv: "reported_all s" "room c s" and st: "step c f a s = Some s'"
  shows "reported_all s' \<and> room c s'"
  using st
proof (cases rule: step_cases)
  case (Panicked pr)
  with inv show ?thesis by (simp add: reported_all_def room_def failures_def exited_count_def)
next
  case (Sent x p')
  with inv show ?thesis by (simp add: reported_all_def room_def failures_def exited_count_def)
next
  case (Closed p' pr)
  with inv show ?thesis by (simp add: reported_all_def room_def failures_def exited_count_def)
next
  case Cancelled
  with inv show ?thesis by (simp add: reported_all_def room_def failures_def exited_count_def)
next
  case (Took i queue x rest)
  have "pending_list 0 (ws s') = pending_list 0 (ws s)"
    using pending_list_update [of i "ws s" 0 "Running (queue @ [x])"] Took
    by (simp add: set_worker_def)
  moreover have "exited_count s' = exited_count s"
    using filter_update_count [of i "ws s" "\<lambda>w. w = Exited" "Running (queue @ [x])"] Took
    by (simp add: set_worker_def exited_count_def)
  ultimately show ?thesis
    using inv Took by (simp add: reported_all_def room_def failures_def set_worker_def)
next
  case (Filled i queue x rest)
  let ?s0 = "s\<lparr>ch := (ch s)\<lparr>buf := rest\<rparr>\<rparr>"
  have "pending_list 0 (ws s') = pending_list 0 (ws ?s0) +
          mset (case flush_result f (queue @ [x]) (hst ?s0) of Some err \<Rightarrow> [WorkerTag i err] | None \<Rightarrow> [])"
    unfolding Filled(6) using Filled by (intro pending_settle [where ?queue0.0 = queue]) simp_all
  moreover have "exited_count s' = exited_count s"
    using filter_update_count [of i "ws s" "\<lambda>w. w = Exited"] Filled
    by (cases "flush_result f (queue @ [x]) (hst s)")
       (simp_all add: settle_ws settled_def exited_count_def)
  ultimately show ?thesis
    using inv Filled by (simp add: reported_all_def room_def failures_settle) (simp add: failures_def)
next
  case (Drained i queue)
  have "pending_list 0 (ws s') = pending_list 0 (ws s) +
          mset (case flush_result f queue (hst s) of Some err \<Rightarrow> [WorkerTag i err] | None \<Rightarrow> [])"
    unfolding Drained(6) using Drained by (intro pending_settle [where ?queue0.0 = queue]) simp_all
  moreover have "exited_count s \<le> exited_count s'"
    using filter_update_count [of i "ws s" "\<lambda>w. w = Exited"] Drained
    by (cases "flush_result f queue (hst s)")
       (simp_all add: settle_ws settled_def exited_count_def)
  ultimately show ?thesis
    using inv Drained by (simp add: reported_all_def room_def failures_settle settle_ws)
next
  case (Ticked i queue)
  have "pending_list 0 (ws s') = pending_list 0 (ws s) +
          mset (case flush_result f queue (hst s) of Some err \<Rightarrow> [WorkerTag i err] | None \<Rightarrow> [])"
    unfolding Ticked(4) using Ticked by (intro pending_settle [where ?queue0.0 = queue]) simp_all
  moreover have "exited_count s' = exited_count s"
    using filter_update_count [of i "ws s" "\<lambda>w. w = Exited"] Ticked
    by (cases "flush_result f queue (hst s)")
       (simp_all add: settle_ws settled_def exited_count_def)
  ultimately show ?thesis
    using inv Ticked by (simp add: reported_all_def room_def failures_settle settle_ws)
next
  case (Done i queue)
  have "pending_list 0 (ws s') = pending_list 0 (ws s) +
          mset (case flush_result f queue (hst s) of Some err \<Rightarrow> [WorkerTag i err] | None \<Rightarrow> [])"
    unfolding Done(5) using Done by (intro pending_settle [where ?queue0.0 = queue]) simp_all
  moreover have "exited_count s \<le> exited_count s'"
    using filter_update_count [of i "ws s" "\<lambda>w. w = Exited"] Done
    by (cases "flush_result f queue (hst s)")
       (simp_all add: settle_ws settled_def exited_count_def)
  ultimately show ?thesis
    using inv Done by (simp add: reported_all_def room_def failures_settle settle_ws)
next
  case (Reported i err)
  have p: "pending_list 0 (ws s') + {#WorkerTag i err#} = pending_list 0 (ws s)"
    using pending_list_update [of i "ws s" 0 Exited] Reported by simp
  have e: "exited_count s' = exited_count s + 1"
    using filter_update_count [of i "ws s" "\<lambda>w. w = Exited" Exited] Reported
    by (simp add: exited_count_def)
  have "Returned err \<in> set (ws s)"
    using Reported nth_mem [of i "ws s"] by simp
  then have "exited_count s < length (ws s)"
    unfolding exited_count_def by (rule length_filter_less) simp
  with inv have free: "int (length (errCh s)) < WorkerNum c"
    unfolding room_def by linarith
  have "failures s' = failures s" using Reported by (simp add: failures_def)
  with inv p e free Reported show ?thesis
    by (simp add: reported_all_def room_def)
qed

subsection \<open>The properties hold in every run of a new bucket\<close>

lemma pending_list_replicate: "pending_list n (replicate k (Running [])) = {#}"
  by (induction k arbitrary: n) (simp_all add: pending_list_def)

lemma held_replicate: "sum_list (map queued (replicate k (Running []))) = {#}"
  by (induction k) simp_all

lemma cfg_New [simp]: "cfg (New c0) = clamp_Config c0"
  by (simp add: New_def Let_def)

lemma init_fresh:
  "ch (init_sys (New c0) p h) = make_chan (nat (BatchSize (clamp_Config c0)))"
  "ws (init_sys (New c0) p h) = replicate (nat (WorkerNum (clamp_Config c0))) (Running [])"
  "calls (init_sys (New c0) p h) = []" "sent (init_sys (New c0) p h) = []"
  "errCh (init_sys (New c0) p h) = []" "\<not> ctx_cancelled (init_sys (New c0) p h)"
  "\<not> proc_cancelled (init_sys (New c0) p h)" "\<not> panicked (init_sys (New c0) p h)"
  "prod (init_sys (New c0) p h) = p" "hst (init_sys (New c0) p h) = h"
  by (simp_all add: init_sys_def New_def Let_def)

lemma invariants_init: "invariants (clamp_Config c0) (init_sys (New c0) p h)"
  using held_replicate [of "nat (WorkerNum (clamp_Config c0))", where 'a = 'a]
  by (simp add: invariants_def accounted_def reported_all_def room_def init_fresh held_def
      pending_list_replicate batches_def failures_def make_chan_def exited_count_def
      del: map_replicate)

lemma undisturbed_init: "undisturbed (init_sys (New c0) p h)"
  by (simp add: undisturbed_def quiet_def init_fresh list_all_iff at_rest_def)

lemma invariants_run:
  assumes "run_sched (clamp_Config c0) f sched (init_sys (New c0) p h) = Some s"
  shows "invariants (clamp_Config c0) s"
  using assms invariants_init
proof (rule run_sched_invariant)
  fix a t t'
  assume "invariants (clamp_Config c0) t" "step (clamp_Config c0) f a t = Some t'"
  then show "invariants (clamp_Config c0) t'"
    using accounted_step [of t "clamp_Config c0" f a t']
      reported_all_step [of t "clamp_Config c0" f a t']
    by (simp add: invariants_def)
qed

lemma undisturbed_run:
  assumes "run_sched (clamp_Config c0) f sched (init_sys (New c0) p h) = Some s"
    and "Cancel \<notin> set sched"
  shows "undisturbed s"
  using assms(1) undisturbed_init
proof (rule run_sched_invariant)
  fix a t t'
  assume "a \<in> set sched" "undisturbed t" "step (clamp_Config c0) f a t = Some t'"
  with assms(2) show "undisturbed t'"
    by (intro undisturbed_step [of t "clamp_Config c0" f a t']) auto
qed

lemma all_exited_empty:
  assumes "list_all (\<lambda>w. w = Exited) xs"
  shows "sum_list (map queued xs) = {#}" "pending_list n xs = {#}"
  using assms by (induction xs arbitrary: n) (simp_all add: pending_list_def)

lemma workers_exist: "0 < nat (WorkerNum (clamp_Config c0))"
  by (simp add: clamp_Config_def Let_def)

lemma Bucket_Run_Some:
  assumes "Bucket_Run f b p h sched = Some (r, s)"
  shows "run_sched (cfg b) f sched (init_sys b p h) = Some s" "all_exited s" "r = first_error s"
  using assms by (auto simp: Bucket_Run_def split: option.splits if_splits)



section \<open>Chunks\<close>

declare chunks.simps [simp del]

lemma chunks_Nil [simp]: "chunks n [] = []"
  by (simp add: chunks.simps)

lemma chunks_full: "0 < n \<Longrightarrow> length b = n \<Longrightarrow> chunks n (b @ ys) = b # chunks n ys"
  by (subst chunks.simps) auto

lemma chunks_short: "xs \<noteq> [] \<Longrightarrow> length xs < n \<Longrightarrow> chunks n xs = [xs]"
  by (subst chunks.simps) simp

lemma chunks_batches:
  "0 < n \<Longrightarrow> list_all (\<lambda>b. length b = n) bs \<Longrightarrow> length queue < n \<Longrightarrow>
     chunks n (concat bs @ queue) = bs @ (if queue = [] then [] else [queue])"
  by (induction bs) (simp_all add: chunks_full chunks_short)

lemma div_one_more: "k < n \<Longrightarrow> (n + k) div n = Suc 0" for n k :: nat
proof -
  assume lt: "k < n"
  then have "n \<noteq> 0" by simp
  then have "(n + k) div n = k div n + 1" by (rule div_add_self1)
  with lt show ?thesis by simp
qed

lemma concat_chunks: "0 < n \<Longrightarrow> concat (chunks n xs) = xs"
proof (induction n xs rule: chunks.induct)
  case (1 n xs)
  then show ?case by (subst chunks.simps) simp
qed

lemma length_chunks: "0 < n \<Longrightarrow> length (chunks n xs) = (length xs + n - 1) div n"
proof (induction n xs rule: chunks.induct)
  case (1 n xs)
  note pos = \<open>0 < n\<close>
  show ?case
  proof (cases "xs = []")
    case True
    with pos show ?thesis by simp
  next
    case False
    with pos have unfold: "chunks n xs = take n xs # chunks n (drop n xs)"
      by (subst chunks.simps) simp
    show ?thesis
    proof (cases "length xs \<le> n")
      case True
      with unfold have "length (chunks n xs) = 1" by simp
      moreover have eq: "length xs + n - 1 = n + (length xs - 1)" and lt: "length xs - 1 < n"
        using True False pos by (cases xs; simp)+
      have "(n + (length xs - 1)) div n = 1"
        using div_one_more [OF lt] by simp
      with eq have "(length xs + n - 1) div n = 1"
        by (simp only:)
      ultimately show ?thesis by simp
    next
      case long: False
      have ih: "length (chunks n (drop n xs)) = (length (drop n xs) + n - 1) div n"
        using 1(1) False pos by simp
      have "length (drop n xs) + n - 1 = length xs - 1" using long by simp
      with ih unfold have "length (chunks n xs) = Suc ((length xs - 1) div n)" by simp
      moreover have "length xs + n - 1 = (length xs - 1) + n" using long by simp
      then have "(length xs + n - 1) div n = Suc ((length xs - 1) div n)"
        using pos by (simp only: div_add_self2)
      ultimately show ?thesis by simp
    qed
  qed
qed

lemma chunks_sizes:
  "0 < n \<Longrightarrow> Suc k < length (chunks n xs) \<Longrightarrow> length (chunks n xs ! k) = n"
proof (induction n xs arbitrary: k rule: chunks.induct)
  case (1 n xs)
  from 1(3) have ne: "xs \<noteq> []" by auto
  with 1(2) have unfold: "chunks n xs = take n xs # chunks n (drop n xs)"
    by (subst chunks.simps) simp
  with 1(3) have more: "chunks n (drop n xs) \<noteq> []" by auto
  then have "drop n xs \<noteq> []" by auto
  then have full: "length (take n xs) = n" by simp
  show ?case
  proof (cases k)
    case 0
    with unfold full show ?thesis by simp
  next
    case (Suc j)
    with 1(3) unfold have "Suc j < length (chunks n (drop n xs))" by simp
    from 1(1) [OF _ 1(2) this] ne 1(2) have "length (chunks n (drop n xs) ! j) = n" by simp
    with unfold Suc show ?thesis by simp
  qed
qed

lemma chunks_last:
  "0 < n \<Longrightarrow> xs \<noteq> [] \<Longrightarrow>
     length (last (chunks n xs)) = (if length xs mod n = 0 then n else length xs mod n)"
proof (induction n xs rule: chunks.induct)
  case (1 n xs)
  from 1(2,3) have unfold: "chunks n xs = take n xs # chunks n (drop n xs)"
    by (subst chunks.simps) simp
  show ?case
  proof (cases "drop n xs = []")
    case True
    then have le: "length xs \<le> n" by simp
    have "length xs > 0" using 1(3) by simp
    with le have "(if length xs mod n = 0 then n else length xs mod n) = length xs"
      by (cases "length xs = n") simp_all
    with True unfold le show ?thesis by simp
  next
    case False
    then have "chunks n (drop n xs) \<noteq> []"
      using 1(2) by (subst chunks.simps) simp
    with unfold have "last (chunks n xs) = last (chunks n (drop n xs))" by simp
    moreover from 1(1) [OF _ 1(2) False] 1(2,3)
    have "length (last (chunks n (drop n xs))) =
            (if length (drop n xs) mod n = 0 then n else length (drop n xs) mod n)"
      by simp
    moreover have "length (drop n xs) mod n = length xs mod n"
      using False by (simp add: le_mod_geq)
    ultimately show ?thesis by simp
  qed
qed

section \<open>One worker delivers the chunks in order\<close>

lemma batches_settle:
  "batches (settle w_ok f i queue s) = batches s @ (if queue = [] then [] else [queue])"
  by (simp add: batches_def settle_calls)

lemma emits_Client:
  assumes "emits (Client (map PConsume rest @ [PClose])) x p'"
  shows "\<exists>rest'. rest = x # rest' \<and> p' = Client (map PConsume rest' @ [PClose])"
  using assms by (cases rest) (simp_all add: emits_def)

lemma closes_Client:
  assumes "closes a s p' pr" "prod s = Client (map PConsume rest @ [PClose])"
  shows "rest = [] \<and> p' = Client []"
  using assms by (cases rest) (simp_all add: closes_def)

lemma in_order_cases [consumes 2, case_names running exited]:
  assumes "in_order B xs s" "no_failures s"
  obtains (running) queue where "ws s = [Running queue]" "feeding B xs s queue"
  | (exited) "ws s = [Exited]" "batches s = chunks B xs"
  using assms by (auto simp: in_order_def split: list.splits wstate.splits)

lemma no_failures_step:
  assumes "step c f a s = Some s'" "no_failures s'"
  shows "no_failures s"
  using assms
  by (cases rule: step_cases)
     (simp_all add: no_failures_def no_failures_settle [unfolded no_failures_def] set_worker_def)

lemma in_order_running:
  "ws s = [Running queue] \<Longrightarrow> feeding B xs s queue \<Longrightarrow> in_order B xs s"
  by (simp add: in_order_def)

lemma in_order_exited:
  "ws s = [Exited] \<Longrightarrow> batches s = chunks B xs \<Longrightarrow> in_order B xs s"
  by (simp add: in_order_def)

lemma in_order_step:
  assumes inv: "in_order B xs s" and und: "undisturbed s" and st: "step c f a s = Some s'"
    and B: "BatchSize c = int B" "0 < B" and a: "\<not> is_Tick a"
  shows "in_order B xs s'"
proof (cases "no_failures s'")
  case False
  then show ?thesis by (simp add: in_order_def)
next
  case nf': True
  with st have nf: "no_failures s" by (rule no_failures_step)
  with und have quiet: "quiet s" by (simp add: undisturbed_def)
  from inv nf show ?thesis
  proof (cases rule: in_order_cases)
    case exited
    from st have "ws s' = [Exited] \<and> batches s' = batches s"
    proof (cases rule: step_cases)
      case (Reported i err)
      with exited show ?thesis by simp
    qed (use exited in \<open>simp_all add: batches_def set_worker_def\<close>)
    with exited show ?thesis by (simp add: in_order_exited)
  next
    case (running queue)
    from running(2) obtain rest where q: "length queue < B"
      and full: "list_all (\<lambda>b. length b = B) (batches s)"
      and xs: "xs = concat (batches s) @ queue @ buf (ch s) @ rest"
      and pr: "if closed (ch s) then rest = [] \<and> prod s = Client []
               else prod s = Client (map PConsume rest @ [PClose])"
      by (auto simp: feeding_def)
    from st show ?thesis
    proof (cases rule: step_cases)
      case (Panicked pr')
      with running q full xs pr have "feeding B xs s' queue"
        by (simp add: feeding_def batches_def)
      with running Panicked show ?thesis by (intro in_order_running) simp_all
    next
      case (Sent x p')
      with pr have "emits (Client (map PConsume rest @ [PClose])) x p'" by simp
      from emits_Client [OF this] obtain rest' where
        "rest = x # rest'" "p' = Client (map PConsume rest' @ [PClose])" by blast
      with Sent q full xs have "feeding B xs s' queue"
        by (simp add: feeding_def batches_def)
      with running Sent show ?thesis by (intro in_order_running) simp_all
    next
      case (Closed p' pr')
      with pr have "prod s = Client (map PConsume rest @ [PClose])" by simp
      from closes_Client [OF Closed(2) this] Closed q full xs have "feeding B xs s' queue"
        by (simp add: feeding_def batches_def)
      with running Closed show ?thesis by (intro in_order_running) simp_all
    next
      case Cancelled
      with running q full xs pr have "feeding B xs s' queue"
        by (simp add: feeding_def batches_def)
      with running Cancelled show ?thesis by (intro in_order_running) simp_all
    next
      case (Took i queue' x rest')
      with running have i: "i = 0" "queue' = queue" by simp_all
      from Took B i have "length (queue @ [x]) < B" by simp
      with Took i full xs pr have "feeding B xs s' (queue @ [x])"
        by (simp add: feeding_def batches_def set_worker_def)
      with running Took i show ?thesis by (intro in_order_running) (simp_all add: set_worker_def)
    next
      case (Filled i queue' x rest')
      with running have i: "i = 0" "queue' = queue" by simp_all
      from Filled B i q have len: "length (queue @ [x]) = B" by simp
      from nf' Filled i have ok: "flush_result f (queue @ [x]) (hst s) = None"
        by (simp add: no_failures_settle)
      have "feeding B xs s' []"
        using Filled i full xs pr len B(2)
        by (cases "closed (ch s)") (simp_all add: feeding_def batches_settle, simp_all add: batches_def)
      moreover have "ws s' = [Running []]"
        using Filled i running ok by (simp add: settle_ws settled_def)
      ultimately show ?thesis by (rule in_order_running [rotated])
    next
      case (Drained i queue')
      with running have i: "i = 0" "queue' = queue" by simp_all
      from nf' Drained i have ok: "flush_result f queue (hst s) = None"
        by (simp add: no_failures_settle)
      from Drained pr xs have "xs = concat (batches s) @ queue" by simp
      with chunks_batches [OF B(2) full q] Drained i
      have "batches s' = chunks B xs" by (simp add: batches_settle)
      moreover have "ws s' = [Exited]"
        using Drained i running ok by (simp add: settle_ws settled_def)
      ultimately show ?thesis by (rule in_order_exited [rotated])
    next
      case (Ticked i queue')
      with a show ?thesis by (simp add: is_Tick_def)
    next
      case (Done i queue')
      with quiet show ?thesis by (simp add: quiet_def)
    next
      case (Reported i err)
      with running show ?thesis by simp
    qed
  qed
qed

lemma in_order_init:
  assumes "WorkerNum c0 = 1" "0 < B"
  shows "in_order B xs (init_sys (New c0) (Client (map PConsume xs @ [PClose])) h)"
proof -
  have "WorkerNum (clamp_Config c0) = 1" using assms by (simp add: clamp_Config_def Let_def)
  with assms(2) show ?thesis
    by (intro in_order_running [of _ "[]"])
       (simp_all add: init_fresh feeding_def batches_def make_chan_def)
qed

lemma in_order_run:
  assumes "WorkerNum c0 = 1" "BatchSize c0 = int B" "0 < B"
    and run: "run_sched (clamp_Config c0) f sched (init_sys (New c0) (Client (map PConsume xs @ [PClose])) h) = Some s"
    and sched: "\<not> list_ex is_Tick sched" "Cancel \<notin> set sched"
  shows "in_order B xs s"
proof -
  have B: "BatchSize (clamp_Config c0) = int B"
    using assms(2,3) by (simp add: clamp_Config_def Let_def)
  have "undisturbed s \<and> in_order B xs s"
    using run
  proof (rule run_sched_invariant)
    show "undisturbed (init_sys (New c0) (Client (map PConsume xs @ [PClose])) h) \<and>
          in_order B xs (init_sys (New c0) (Client (map PConsume xs @ [PClose])) h)"
      by (simp add: undisturbed_init in_order_init [OF assms(1,3)])
  next
    fix a t t'
    assume a: "a \<in> set sched" and inv: "undisturbed t \<and> in_order B xs t"
      and st: "step (clamp_Config c0) f a t = Some t'"
    from a sched have na: "\<not> is_Tick a" "a \<noteq> Cancel" by (auto simp: list_ex_iff)
    from inv st na(2) have "undisturbed t'" by (intro undisturbed_step [OF _ st]) simp_all
    moreover from inv st na(1) have "in_order B xs t'"
      by (intro in_order_step [OF _ _ st B assms(3)]) simp_all
    ultimately show "undisturbed t' \<and> in_order B xs t'" ..
  qed
  then show ?thesis ..
qed

section \<open>The calls of one pipeline\<close>

lemma invoke_trace:
  "invoke c m st = (r, st') \<Longrightarrow> snd st' = snd st @ [c]"
  by (auto simp: invoke_def split: prod.splits)

lemma process_batch_trace: "snd (snd (process_batch p items st)) = snd st @ [CLoad]"
  by (simp add: process_batch_def invoke_def split: prod.splits)

lemma setup_calls_step:
  assumes "step c (process_batch p) a s = Some s'"
  shows "setup_calls (snd (hst s')) = setup_calls (snd (hst s))"
  using assms
  by (cases rule: step_cases)
     (simp_all add: settle_hst set_worker_def process_batch_trace setup_calls_def)

lemma setup_calls_run:
  assumes "run_sched c (process_batch p) sched s = Some s'"
  shows "setup_calls (snd (hst s')) = setup_calls (snd (hst s))"
  using assms
proof (rule run_sched_invariant [where I = "\<lambda>t. setup_calls (snd (hst t)) = setup_calls (snd (hst s))"])
  fix a t t'
  assume "setup_calls (snd (hst t)) = setup_calls (snd (hst s))"
    "step c (process_batch p) a t = Some t'"
  then show "setup_calls (snd (hst t')) = setup_calls (snd (hst s))"
    using setup_calls_step [of c p a t t'] by simp
qed simp

lemma ETL_Run_setup_calls:
  assumes "ETL_Run p bucketCfg sched st = Some (None, st')"
  shows "setup_calls (snd st') = setup_calls (snd st) @ [CPreProcess, CExtract, CPostProcess]"
proof -
  obtain r1 st1 where pre: "invoke CPreProcess (PreProcess p) st = (r1, st1)"
    by (cases "invoke CPreProcess (PreProcess p) st")
  obtain r2 st2 where ext: "invoke CExtract (Extract p) st1 = (r2, st2)"
    by (cases "invoke CExtract (Extract p) st1")
  from assms pre have r1: "r1 = None"
    by (cases r1) (simp_all add: ETL_Run_def)
  from assms pre r1 ext obtain extractor where r2: "r2 = Inr extractor"
    by (cases r2) (simp_all add: ETL_Run_def Let_def)
  from assms pre r1 ext r2 obtain s where
    run: "Bucket_Run (process_batch p) (New bucketCfg) (Feeder extractor) st2 sched = Some (None, s)"
    and post: "invoke CPostProcess (PostProcess p) (hst s) = (None, st')"
    by (auto simp: ETL_Run_def Let_def split: option.splits prod.splits)
  from Bucket_Run_Some(1) [OF run] have "setup_calls (snd (hst s)) = setup_calls (snd st2)"
    using setup_calls_run [of _ p sched "init_sys (New bucketCfg) (Feeder extractor) st2" s]
    by (simp add: init_fresh)
  with invoke_trace [OF pre] invoke_trace [OF ext] invoke_trace [OF post]
  show ?thesis by (simp add: setup_calls_def)
qed

lemma pipelineAdapter_Run_setup_calls:
  assumes "pipelineAdapter_Run a bucketCfg sched st = Some (None, st')"
  shows "setup_calls (snd st') =
           setup_calls (snd st) @ [CPreProcess, CPreProcess, CExtract, CPostProcess, CPostProcess]"
proof -
  obtain r1 st1 where pre: "invoke CPreProcess (PreProcess (etl a)) st = (r1, st1)"
    by (cases "invoke CPreProcess (PreProcess (etl a)) st")
  from assms pre have r1: "r1 = None"
    by (cases r1) (simp_all add: pipelineAdapter_Run_def ETL_PreProcess_def)
  from assms pre r1 obtain st2 where
    run: "ETL_Run (etl a) bucketCfg sched st1 = Some (None, st2)"
    and post: "invoke CPostProcess (PostProcess (etl a)) st2 = (None, st')"
    by (auto simp: pipelineAdapter_Run_def ETL_PreProcess_def ETL_PostProcess_def
        split: option.splits prod.splits)
  from ETL_Run_setup_calls [OF run] invoke_trace [OF pre] invoke_trace [OF post]
  show ?thesis by (simp add: setup_calls_def)
qed

section \<open>Runs of the manager\<close>

lemma mwf_init: "mwf m ws0 (minit m ws0)"
  by (simp add: mwf_def minit_def outcomes_def finished_def)

lemma finished_Acquire:
  assumes "i < length (tasks s)" "tasks s ! i = Launched"
  shows "finished (s\<lparr>tasks := (tasks s)[i := Active], sem := k\<rparr>) = finished s"
  using assms by (auto simp: finished_def nth_list_update)

lemma finished_Complete:
  assumes "i < length (tasks s)"
  shows "finished (s\<lparr>tasks := (tasks s)[i := Finished], sem := k, results := rs, worlds := wl,
                     ran := rn\<rparr>) = insert i (finished s)"
  using assms by (auto simp: finished_def nth_list_update)

lemma mwf_step:
  assumes inv: "mwf m ws0 s" and st: "mstep m a s = Some s'"
  shows "mwf m ws0 s'"
proof (cases a)
  case (Acquire i)
  with st have i: "i < length (tasks s)" "tasks s ! i = Launched"
    and s': "s' = s\<lparr>tasks := (tasks s)[i := Active], sem := sem s + 1\<rparr>"
    by (auto split: if_splits)
  have "finished s' = finished s" unfolding s' using i by (rule finished_Acquire)
  moreover have "ran_ok m ws0 s' = ran_ok m ws0 s"
    by (intro ext) (simp add: ran_ok_def s')
  ultimately show ?thesis using inv by (simp add: mwf_def) (simp add: s')
next
  case (Complete i orc)
  with st obtain r w' where i: "i < length (tasks s)" "i < length (worlds s)" "tasks s ! i = Active"
    and run: "Run (pipelines m ! i) (bucketConfig m) orc (worlds s ! i) = Some (r, w')"
    and s': "s' = s\<lparr>tasks := (tasks s)[i := Finished], sem := sem s - 1,
                     results := results s @ [pipeline_outcome (Name (pipelines m ! i)) r],
                     worlds := (worlds s)[i := w'], ran := ran s @ [(i, r)]\<rparr>"
    by (auto split: if_splits option.splits)
  from i have notfin: "i \<notin> finished s" by (simp add: finished_def)
  with inv i have start: "worlds s ! i = ws0 ! i" and iw: "i < length ws0"
    by (simp_all add: mwf_def)
  have fin: "finished s' = insert i (finished s)"
    unfolding s' using i(1) by (rule finished_Complete)
  have old: "ran_ok m ws0 s' ir" if "ir \<in> set (ran s)" for ir
  proof -
    from that inv have ok: "ran_ok m ws0 s ir" and "fst ir \<in> finished s"
      by (auto simp: mwf_def list_all_iff)
    with notfin have "fst ir \<noteq> i" by auto
    with ok show ?thesis by (simp add: ran_ok_def s')
  qed
  have new: "ran_ok m ws0 s' (i, r)"
    using run start iw i by (auto simp: ran_ok_def s')
  have "list_all (ran_ok m ws0 s') (ran s')"
    using old new by (simp add: s' list_all_iff)
  moreover have "distinct (map fst (ran s'))"
    using inv notfin by (simp add: s' mwf_def)
  moreover have "set (map fst (ran s')) = finished s'"
    using inv fin by (simp add: mwf_def) (simp add: s')
  moreover have "results s' = outcomes m (ran s')"
    using inv by (simp add: mwf_def s' outcomes_def)
  moreover have "\<forall>j < length ws0. j \<notin> finished s' \<longrightarrow> worlds s' ! j = ws0 ! j"
    using inv fin by (simp add: mwf_def) (simp add: s')
  moreover have "length (tasks s') = length (pipelines m)" "length (worlds s') = length ws0"
    using inv by (simp_all add: mwf_def s')
  ultimately show ?thesis by (simp add: mwf_def)
qed

lemma mwf_run:
  assumes "mrun m sched s = Some s'" "mwf m ws0 s"
  shows "mwf m ws0 s'"
  using assms
proof (induction sched arbitrary: s)
  case Nil
  then show ?case by simp
next
  case (Cons a sched)
  from Cons.prems(1) obtain t where t: "mstep m a s = Some t" and rest: "mrun m sched t = Some s'"
    by (auto split: option.splits)
  from mwf_step [OF Cons.prems(2) t] Cons.IH [OF rest] show ?case by simp
qed

lemma first_failure_None: "first_failure rs = None \<longleftrightarrow> list_all (\<lambda>r. r = None) rs"
  by (induction rs rule: first_failure.induct) simp_all


lemma RunAll_Some:
  assumes "RunAll m sched ws0 = Some (res, s)" "pipelines m \<noteq> []"
  shows "mrun m sched (minit m ws0) = Some s" "list_all (\<lambda>t. t = Finished) (tasks s)"
    "res = first_failure (results s)"
  using assms by (auto simp: RunAll_def split: option.splits if_splits)

lemma RunAll_finished:
  assumes "RunAll m sched ws0 = Some (res, s)" "pipelines m \<noteq> []"
  shows "mwf m ws0 s" "finished s = {..<length (pipelines m)}"
proof -
  note run = RunAll_Some [OF assms]
  from mwf_run [OF run(1) mwf_init] show wf: "mwf m ws0 s" .
  then have "length (tasks s) = length (pipelines m)" by (simp add: mwf_def)
  with run(2) show "finished s = {..<length (pipelines m)}"
    by (auto simp: finished_def list_all_length)
qed

lemma pipeline_outcome_None [simp]: "pipeline_outcome nm r = None \<longleftrightarrow> r = None"
  by (cases r) (simp_all add: pipeline_outcome_def)

lemma count_list_setup_calls:
  "c \<noteq> CLoad \<Longrightarrow> count_list (setup_calls trace) c = count_list trace c"
  by (induction trace) (simp_all add: setup_calls_def)

section \<open>Run can return once a handler has failed\<close>










section \<open>A run of one worker that completes\<close>

lemma step_Produce_send:
  assumes "\<not> panicked s" "prod s = Client (PConsume x # ops)" "\<not> closed (ch s)"
    "length (buf (ch s)) < cap (ch s)"
  shows "step c f Produce s =
           Some (s\<lparr>ch := (ch s)\<lparr>buf := buf (ch s) @ [x]\<rparr>, prod := Client ops, sent := sent s @ [x]\<rparr>)"
  using assms by (simp add: step_def produce_step_def send_item_def chan_send_def)

lemma step_Produce_close:
  assumes "\<not> panicked s" "prod s = Client (PClose # ops)" "\<not> closed (ch s)"
  shows "step c f Produce s = Some (s\<lparr>ch := (ch s)\<lparr>closed := True\<rparr>, prod := Client ops\<rparr>)"
  using assms by (simp add: step_def produce_step_def close_chan_def chan_close_def)

lemma step_Recv_item:
  assumes "\<not> panicked s" "i < length (ws s)" "ws s ! i = Running queue" "buf (ch s) = x # rest"
  shows "step c f (Recv i) s =
           Some (if BatchSize c \<le> int (length queue) + 1
                 then settle (Running []) f i (queue @ [x]) (s\<lparr>ch := (ch s)\<lparr>buf := rest\<rparr>\<rparr>)
                 else set_worker i (Running (queue @ [x])) (s\<lparr>ch := (ch s)\<lparr>buf := rest\<rparr>\<rparr>))"
  using assms
  by (simp add: step_def worker_at_def recv_step_def chan_recv_def Let_def flush_continue_settle)

lemma step_Recv_closed:
  assumes "\<not> panicked s" "i < length (ws s)" "ws s ! i = Running queue" "buf (ch s) = []"
    "closed (ch s)"
  shows "step c f (Recv i) s = Some (settle Exited f i queue s)"
  using assms
  by (simp add: step_def worker_at_def recv_step_def chan_recv_def flush_return_settle)

lemma never_fails_result: "never_fails f \<Longrightarrow> flush_result f queue h = None"
  by (simp add: never_fails_def flush_result_def)

lemma never_fails_step:
  assumes "never_fails f" "step c f a s = Some s'" "no_failures s"
  shows "no_failures s'"
  using assms(2)
  by (cases rule: step_cases)
     (use assms(1,3) in \<open>simp_all add: no_failures_settle never_fails_result\<close>,
      simp_all add: no_failures_def set_worker_def)

lemma never_fails_run:
  assumes "never_fails f" "run_sched c f sched s = Some s'" "no_failures s"
  shows "no_failures s'"
  using assms(2,3)
proof (rule run_sched_invariant)
  fix a t t'
  assume "no_failures t" "step c f a t = Some t'"
  then show "no_failures t'" using never_fails_step [OF assms(1), of c a t t'] by simp
qed

lemma lockstep_completes:
  assumes nf: "never_fails f"
    and s: "ws s = [Running queue]" "buf (ch s) = []" "\<not> closed (ch s)" "0 < cap (ch s)"
      "\<not> panicked s" "prod s = Client (map PConsume xs @ [PClose])"
  shows "\<exists>s'. run_sched c f (lockstep xs) s = Some s' \<and> all_exited s'"
  using s
proof (induction xs arbitrary: s queue)
  case Nil
  let ?s1 = "s\<lparr>ch := (ch s)\<lparr>closed := True\<rparr>, prod := Client []\<rparr>"
  have 1: "step c f Produce s = Some ?s1"
    using Nil by (intro step_Produce_close) simp_all
  have 2: "step c f (Recv 0) ?s1 = Some (settle Exited f 0 queue ?s1)"
    using Nil by (intro step_Recv_closed) simp_all
  have "all_exited (settle Exited f 0 queue ?s1)"
    using Nil nf by (simp add: all_exited_def settle_ws settled_def never_fails_result)
  with 1 2 show ?case by (simp add: lockstep_def)
next
  case (Cons x xs)
  let ?s1 = "s\<lparr>ch := (ch s)\<lparr>buf := buf (ch s) @ [x]\<rparr>, prod := Client (map PConsume xs @ [PClose]),
               sent := sent s @ [x]\<rparr>"
  let ?s0 = "?s1\<lparr>ch := (ch ?s1)\<lparr>buf := []\<rparr>\<rparr>"
  let ?s2 = "if BatchSize c \<le> int (length queue) + 1
             then settle (Running []) f 0 (queue @ [x]) ?s0
             else set_worker 0 (Running (queue @ [x])) ?s0"
  have 1: "step c f Produce s = Some ?s1"
    using Cons.prems by (intro step_Produce_send) simp_all
  have 2: "step c f (Recv 0) ?s1 = Some ?s2"
    using Cons.prems by (intro step_Recv_item) simp_all
  obtain queue' where w: "ws ?s2 = [Running queue']"
    using Cons.prems nf
    by (cases "BatchSize c \<le> int (length queue) + 1")
       (simp_all add: settle_ws settled_def never_fails_result set_worker_def)
  have rest: "buf (ch ?s2) = []" "\<not> closed (ch ?s2)" "0 < cap (ch ?s2)" "\<not> panicked ?s2"
    "prod ?s2 = Client (map PConsume xs @ [PClose])"
    using Cons.prems by (simp_all add: set_worker_def)
  from Cons.IH [OF w rest] obtain s' where
    "run_sched c f (lockstep xs) ?s2 = Some s'" "all_exited s'" by blast
  with 1 2 have "run_sched c f (lockstep (x # xs)) s = Some s' \<and> all_exited s'"
    by (simp add: lockstep_def)
  then show ?case by blast
qed

lemma lockstep_quiet: "\<not> list_ex is_Tick (lockstep xs)" "Cancel \<notin> set (lockstep xs)"
  by (induction xs) (simp_all add: lockstep_def is_Tick_def)

lemma lockstep_run:
  assumes "WorkerNum c0 = 1" "0 < BatchSize c0" "never_fails f"
  shows "\<exists>s. Bucket_Run f (New c0) (Client (map PConsume xs @ [PClose])) h (lockstep xs) =
               Some (first_error s, s) \<and> no_failures s"
proof -
  let ?init = "init_sys (New c0) (Client (map PConsume xs @ [PClose])) h"
  have c: "WorkerNum (clamp_Config c0) = 1" "BatchSize (clamp_Config c0) = BatchSize c0"
    using assms(1,2) by (simp_all add: clamp_Config_def Let_def)
  have "ws ?init = [Running []]" "buf (ch ?init) = []" "\<not> closed (ch ?init)"
    "0 < cap (ch ?init)" "\<not> panicked ?init"
    "prod ?init = Client (map PConsume xs @ [PClose])"
    using c assms(2) by (simp_all add: init_fresh make_chan_def)
  from lockstep_completes [OF assms(3) this, of "clamp_Config c0"] obtain s where
    run: "run_sched (clamp_Config c0) f (lockstep xs) ?init = Some s" and ex: "all_exited s"
    by blast
  have "no_failures ?init" by (simp add: no_failures_def init_fresh)
  from never_fails_run [OF assms(3) run this] have "no_failures s" .
  moreover have "Bucket_Run f (New c0) (Client (map PConsume xs @ [PClose])) h (lockstep xs) =
                   Some (first_error s, s)"
    using run ex by (simp add: Bucket_Run_def)
  ultimately show ?thesis by blast
qed

section \<open>RunAll can return\<close>





section \<open>Extraction failures in the stream\<close>

text \<open>
  Claim C1 on the code. The second payload of the extraction stream carries an error.
  The feeder submits the first item, prints the error and closes the bucket; the
  item is loaded, \<open>PostProcess\<close> runs, and \<open>ETL.Run\<close> returns nil: the extraction
  failure is not part of the run's result.
\<close>

theorem ETL_Run_drops_extraction_failure:
  "ETL_Run bad_extract_processor example_bucket_cfg bad_extract_sched ((), []) =
     Some (None, ((), [CPreProcess, CExtract, CLoad, CPostProcess])) \<and>
   feeder_summary
     (Bucket_Run (process_batch bad_extract_processor) (New example_bucket_cfg)
        (Feeder [\<lparr>Data = 1, Err = None\<rparr>, \<lparr>Data = 0, Err = Some (Msg ''cursor error'')\<rparr>,
                 \<lparr>Data = 3, Err = None\<rparr>])
        ((), [CPreProcess, CExtract]) bad_extract_sched) =
     Some (None, [Msg ''cursor error''], [1])"
  by code_simp

section \<open>Setup and teardown of a generic pipeline\<close>

text \<open>
  Claim C2. In a \<open>RunAll\<close> that returns nil, the processor of every pipeline
  registered through \<open>AddPipelineGeneric\<close> has had, beyond its batch loads, exactly
  the invocations PreProcess, PreProcess, Extract, PostProcess, PostProcess in that
  order: PreProcess twice (by the adapter and by \<open>ETL.Run\<close>) and PostProcess twice.
\<close>

theorem generic_pipeline_setup_and_teardown_twice:
  assumes "RunAll m sched ws0 = Some (None, s)" and "i < length (pipelines m)"
    and "pipelines m ! i = as_ETLRunner \<lparr>etl = NewETL processor, name = nm\<rparr>"
  shows "setup_calls (snd (worlds s ! i)) =
           setup_calls (snd (ws0 ! i)) @
             [CPreProcess, CPreProcess, CExtract, CPostProcess, CPostProcess] \<and>
         count_list (snd (worlds s ! i)) CPreProcess = count_list (snd (ws0 ! i)) CPreProcess + 2 \<and>
         count_list (snd (worlds s ! i)) CPostProcess = count_list (snd (ws0 ! i)) CPostProcess + 2"
proof -
  from assms(2) have ne: "pipelines m \<noteq> []" by auto
  note run = RunAll_Some [OF assms(1) ne]
  note fin = RunAll_finished [OF assms(1) ne]
  from fin(1) have wf: "results s = outcomes m (ran s)"
    "set (map fst (ran s)) = finished s" "list_all (ran_ok m ws0 s) (ran s)"
    by (simp_all add: mwf_def)
  from assms(2) fin(2) have "i \<in> finished s" by simp
  with wf(2) have "i \<in> fst ` set (ran s)" by simp
  then obtain ir where mem: "ir \<in> set (ran s)" and fst_ir: "fst ir = i" by auto
  have "pipeline_outcome (Name (pipelines m ! fst ir)) (snd ir) \<in> set (outcomes m (ran s))"
    unfolding outcomes_def using mem by simp
  moreover from run(3) wf(1) have "list_all (\<lambda>x. x = None) (outcomes m (ran s))"
    by (simp add: first_failure_None [symmetric])
  ultimately have "pipeline_outcome (Name (pipelines m ! fst ir)) (snd ir) = None"
    unfolding list_all_iff by blast
  then have none: "snd ir = None" by simp
  from mem wf(3) have "ran_ok m ws0 s ir" unfolding list_all_iff by blast
  with fst_ir none obtain orc where
    "Run (pipelines m ! i) (bucketConfig m) orc (ws0 ! i) = Some (None, worlds s ! i)"
    unfolding ran_ok_def by auto
  with assms(3) have
    "pipelineAdapter_Run \<lparr>etl = NewETL processor, name = nm\<rparr> (bucketConfig m) orc (ws0 ! i) =
       Some (None, worlds s ! i)"
    by (simp add: as_ETLRunner_def)
  from pipelineAdapter_Run_setup_calls [OF this]
  have seq: "setup_calls (snd (worlds s ! i)) =
           setup_calls (snd (ws0 ! i)) @
             [CPreProcess, CPreProcess, CExtract, CPostProcess, CPostProcess]" .
  have via: "count_list (snd (worlds s ! i)) c =
          count_list (setup_calls (snd (ws0 ! i)) @
             [CPreProcess, CPreProcess, CExtract, CPostProcess, CPostProcess]) c"
    if "c \<noteq> CLoad" for c
    using count_list_setup_calls [OF that, of "snd (worlds s ! i)"] seq by simp
  have "count_list (snd (worlds s ! i)) CPreProcess = count_list (snd (ws0 ! i)) CPreProcess + 2"
    using via [of CPreProcess] by (simp add: count_list_setup_calls)
  moreover
  have "count_list (snd (worlds s ! i)) CPostProcess = count_list (snd (ws0 ! i)) CPostProcess + 2"
    using via [of CPostProcess] by (simp add: count_list_setup_calls)
  ultimately show ?thesis using seq by blast
qed

theorem generic_pipeline_setup_and_teardown_twice_witness:
  "(1::nat) < length (pipelines two_pipelines) \<and>
   pipelines two_pipelines ! 1 = as_ETLRunner \<lparr>etl = NewETL ok_processor, name = ''C''\<rparr> \<and>
   (\<exists>s. RunAll two_pipelines two_pipelines_sched (replicate 2 ((), [])) = Some (None, s) \<and>
      worlds s ! 1 = ((), [CPreProcess, CPreProcess, CExtract, CLoad, CPostProcess, CPostProcess]) \<and>
      count_list (snd (worlds s ! 1)) CPreProcess = 2 \<and>
      count_list (snd (worlds s ! 1)) CPostProcess = 2)"
proof -
  let ?R = "RunAll two_pipelines two_pipelines_sched (replicate 2 ((), []))"
  have reg: "(1::nat) < length (pipelines two_pipelines)"
    "pipelines two_pipelines ! 1 = as_ETLRunner \<lparr>etl = NewETL ok_processor, name = ''C''\<rparr>"
    by (simp_all add: two_pipelines_def AddPipelineGeneric_def addPipelineInternal_def Let_def
        NewManager_def)
  have "?R \<noteq> None" "fst (the ?R) = None" by code_simp+
  then obtain s where run: "?R = Some (None, s)" by (cases ?R) auto
  have "worlds (snd (the ?R)) ! 1 =
          ((), [CPreProcess, CPreProcess, CExtract, CLoad, CPostProcess, CPostProcess])"
    by code_simp
  with run have w: "worlds s ! 1 =
          ((), [CPreProcess, CPreProcess, CExtract, CLoad, CPostProcess, CPostProcess])"
    by simp
  from generic_pipeline_setup_and_teardown_twice [OF run reg]
  have "count_list (snd (worlds s ! 1)) CPreProcess = 2"
    "count_list (snd (worlds s ! 1)) CPostProcess = 2"
    by simp_all
  with reg run w show ?thesis by blast
qed

section \<open>The batches of a single worker\<close>

text \<open>
  Claim C3 as stated fails: when the handler fails, the worker returns at once. With
  one worker, batch size 1 and a handler that fails, items 1 and 2 are submitted and
  the bucket is closed without any timer firing, yet only the batch \<open>[1]\<close> is
  delivered, not the two chunks \<open>[1]\<close> and \<open>[2]\<close>.
\<close>

theorem failed_handler_stops_batching:
  "run_summary (Bucket_Run failing_handler (New one_item_cfg)
                  (Client [PConsume 1, PConsume 2, PClose]) ()
                  [Produce, Recv 0, Report 0, Produce, Produce]) =
     Some (Some (WorkerTag 0 (Msg ''load failed'')), [1, 2], [[1]]) \<and>
   chunks 1 [1, 2 :: nat] = [[1], [2]]"
  by code_simp

text \<open>
  Claim C3, amended. With one worker and batch size \<open>B\<close>, when \<open>N\<close> items are
  submitted and the bucket is then closed: if the handler never fails, there is a
  run without timer fires and without cancellation in which \<open>Run\<close> returns; and in
  every run in which \<open>Run\<close> returns, no timer fires, the context is not cancelled
  and no handler invocation fails, the batches delivered to the handler are the
  successive chunks of \<open>B\<close> items in submission order: \<open>ceil(N/B)\<close> batches, all
  but the last of size \<open>B\<close>, the last of size \<open>N mod B\<close> (or \<open>B\<close> when \<open>B\<close>
  divides \<open>N\<close>), and their concatenation is the submitted sequence.
\<close>

theorem single_worker_batches_in_order:
  assumes "WorkerNum c0 = 1" and "BatchSize c0 = int B" and "0 < B"
  shows "(never_fails f \<longrightarrow>
            (\<exists>sched0 r0 s0. \<not> list_ex is_Tick sched0 \<and> Cancel \<notin> set sched0 \<and>
               Bucket_Run f (New c0) (Client (map PConsume xs @ [PClose])) h sched0 = Some (r0, s0) \<and>
               no_failures s0)) \<and>
         (Bucket_Run f (New c0) (Client (map PConsume xs @ [PClose])) h sched = Some (r, s) \<and>
          \<not> list_ex is_Tick sched \<and> Cancel \<notin> set sched \<and> no_failures s \<longrightarrow>
            batches s = chunks B xs \<and>
            length (batches s) = (length xs + B - 1) div B \<and>
            concat (batches s) = xs \<and>
            (\<forall>k. Suc k < length (batches s) \<longrightarrow> length (batches s ! k) = B) \<and>
            (xs \<noteq> [] \<longrightarrow>
               length (last (batches s)) = (if length xs mod B = 0 then B else length xs mod B)))"
proof (rule conjI; rule impI)
  assume "never_fails f"
  with assms have "\<exists>s. Bucket_Run f (New c0) (Client (map PConsume xs @ [PClose])) h (lockstep xs) =
               Some (first_error s, s) \<and> no_failures s"
    by (intro lockstep_run) simp_all
  with lockstep_quiet [of xs]
  show "\<exists>sched0 r0 s0. \<not> list_ex is_Tick sched0 \<and> Cancel \<notin> set sched0 \<and>
               Bucket_Run f (New c0) (Client (map PConsume xs @ [PClose])) h sched0 = Some (r0, s0) \<and>
               no_failures s0"
    by blast
next
  assume a: "Bucket_Run f (New c0) (Client (map PConsume xs @ [PClose])) h sched = Some (r, s) \<and>
          \<not> list_ex is_Tick sched \<and> Cancel \<notin> set sched \<and> no_failures s"
  then have run0: "Bucket_Run f (New c0) (Client (map PConsume xs @ [PClose])) h sched = Some (r, s)"
    and quiet: "\<not> list_ex is_Tick sched" "Cancel \<notin> set sched" and nf: "no_failures s"
    by simp_all
  note run = Bucket_Run_Some [OF run0, simplified]
  from in_order_run [OF assms run(1) quiet] nf
  have "batches s = chunks B xs"
  proof (cases rule: in_order_cases)
    case (running queue)
    with run(2) show ?thesis by (simp add: all_exited_def)
  next
    case exited
    then show ?thesis by simp
  qed
  with assms(3) show "batches s = chunks B xs \<and>
            length (batches s) = (length xs + B - 1) div B \<and>
            concat (batches s) = xs \<and>
            (\<forall>k. Suc k < length (batches s) \<longrightarrow> length (batches s ! k) = B) \<and>
            (xs \<noteq> [] \<longrightarrow>
               length (last (batches s)) = (if length xs mod B = 0 then B else length xs mod B))"
    by (simp add: length_chunks concat_chunks chunks_sizes chunks_last)
qed

theorem single_worker_batches_in_order_witness:
  "WorkerNum example_bucket_cfg = 1 \<and> BatchSize example_bucket_cfg = int 3 \<and> (0::nat) < 3 \<and>
   never_fails ok_handler \<and>
   (\<exists>sched0 r0 s0. \<not> list_ex is_Tick sched0 \<and> Cancel \<notin> set sched0 \<and>
      Bucket_Run ok_handler (New example_bucket_cfg)
        (Client (map PConsume [1, 2, 3, 4, 5, 6, 7] @ [PClose])) () sched0 = Some (r0, s0) \<and>
      no_failures s0) \<and>
   \<not> list_ex is_Tick seven_items_sched \<and> Cancel \<notin> set seven_items_sched \<and>
   (\<exists>r s. Bucket_Run ok_handler (New example_bucket_cfg)
             (Client (map PConsume [1, 2, 3, 4, 5, 6, 7] @ [PClose])) () seven_items_sched =
             Some (r, s) \<and>
          no_failures s \<and> batches s = [[1, 2, 3], [4, 5, 6], [7]] \<and>
          batches s = chunks 3 [1, 2, 3, 4, 5, 6, 7] \<and>
          length (batches s) = (length [1, 2, 3, 4, 5, 6, 7 :: nat] + 3 - 1) div 3)"
proof -
  let ?P = "Client (map PConsume [1, 2, 3, 4, 5, 6, 7 :: nat] @ [PClose])"
  let ?R = "Bucket_Run ok_handler (New example_bucket_cfg) ?P () seven_items_sched"
  have cfg: "WorkerNum example_bucket_cfg = 1" "BatchSize example_bucket_cfg = int 3" "(0::nat) < 3"
    by (simp_all add: example_bucket_cfg_def)
  have ok: "never_fails ok_handler" by (simp add: never_fails_def ok_handler_def)
  have sched: "\<not> list_ex is_Tick seven_items_sched" "Cancel \<notin> set seven_items_sched"
    by (simp_all add: seven_items_sched_def is_Tick_def)
  have "?R \<noteq> None" by code_simp
  then obtain r s where run: "?R = Some (r, s)" by (cases ?R) auto
  have "no_failures (snd (the ?R))" "batches (snd (the ?R)) = [[1, 2, 3], [4, 5, 6], [7]]"
    by code_simp+
  with run have facts: "no_failures s" "batches s = [[1, 2, 3], [4, 5, 6], [7]]"
    by simp_all
  note inst = single_worker_batches_in_order
    [OF cfg, of ok_handler "[1, 2, 3, 4, 5, 6, 7]" "()" seven_items_sched r s]
  from inst ok have first: "\<exists>sched0 r0 s0. \<not> list_ex is_Tick sched0 \<and> Cancel \<notin> set sched0 \<and>
      Bucket_Run ok_handler (New example_bucket_cfg) ?P () sched0 = Some (r0, s0) \<and> no_failures s0"
    by blast
  from inst run sched facts(1)
  have "batches s = chunks 3 [1, 2, 3, 4, 5, 6, 7]"
    "length (batches s) = (length [1, 2, 3, 4, 5, 6, 7 :: nat] + 3 - 1) div 3"
    by blast+
  with run facts have second: "\<exists>r s. ?R = Some (r, s) \<and>
          no_failures s \<and> batches s = [[1, 2, 3], [4, 5, 6], [7]] \<and>
          batches s = chunks 3 [1, 2, 3, 4, 5, 6, 7] \<and>
          length (batches s) = (length [1, 2, 3, 4, 5, 6, 7 :: nat] + 3 - 1) div 3"
    by blast
  from cfg ok first sched second show ?thesis by blast
qed

section \<open>No item lost, no item duplicated\<close>

text \<open>
  Claim C4 as stated fails: when the caller's context is cancelled, a worker returns
  nil from its \<^verbatim>\<open>ctx.Done()\<close> case with an item still in the intake. The run completes
  without any handler failure, item 1 was submitted, and no batch was delivered.
\<close>

theorem cancelled_run_loses_item:
  "run_summary (Bucket_Run ok_handler (New example_bucket_cfg) (Client [PConsume 1, PClose]) ()
                  [Produce, Cancel, CtxDone 0]) =
     Some (None, [1], [])"
  by code_simp

text \<open>
  Claim C4, amended. For any number of workers, if \<open>Run\<close> returns, the caller's
  context was not cancelled during the run and no handler invocation failed, then
  \<open>Run\<close> returns nil and the items of all delivered batches are, as a multiset,
  exactly the items submitted by \<open>Consume\<close>.
\<close>

theorem Run_delivers_every_item:
  assumes "Bucket_Run f (New c0) p h sched = Some (r, s)"
    and "Cancel \<notin> set sched" and "no_failures s"
  shows "r = None \<and> mset (concat (batches s)) = mset (sent s)"
proof -
  note run = Bucket_Run_Some [OF assms(1), simplified]
  from invariants_run [OF run(1)] have acc: "accounted s"
    and len: "length (ws s) = nat (WorkerNum (clamp_Config c0))"
    by (simp_all add: invariants_def room_def)
  from undisturbed_run [OF run(1) assms(2)] assms(3) have q: "quiet s"
    by (simp add: undisturbed_def)
  from len workers_exist [of c0] obtain w where w: "w \<in> set (ws s)"
    by (cases "ws s") auto
  with run(2) have "w = Exited" by (simp add: all_exited_def list_all_iff)
  with q w have "buf (ch s) = []" by (auto simp: quiet_def list_all_iff at_rest_def)
  moreover have "held s = {#}"
    using run(2) all_exited_empty(1) [of "ws s"] by (simp add: all_exited_def held_def)
  ultimately have "mset (concat (batches s)) = mset (sent s)"
    using acc by (simp add: accounted_def)
  moreover have "r = None" using q run(3) by (simp add: quiet_def first_error_def)
  ultimately show ?thesis by simp
qed

theorem Run_delivers_every_item_witness:
  "Cancel \<notin> set two_workers_sched \<and>
   (\<exists>r s. Bucket_Run ok_handler (New two_workers_cfg) (Client [PConsume 1, PConsume 2, PConsume 3, PClose])
             () two_workers_sched = Some (r, s) \<and>
          no_failures s \<and> sent s = [1, 2, 3] \<and> batches s = [[1, 3], [2]] \<and>
          r = None \<and> mset (concat (batches s)) = mset (sent s))"
proof -
  let ?R = "Bucket_Run ok_handler (New two_workers_cfg)
              (Client [PConsume 1, PConsume 2, PConsume 3, PClose]) () two_workers_sched"
  have nc: "Cancel \<notin> set two_workers_sched" by (simp add: two_workers_sched_def)
  have "?R \<noteq> None" by code_simp
  then obtain r s where run: "?R = Some (r, s)" by (cases ?R) auto
  have "no_failures (snd (the ?R))" "sent (snd (the ?R)) = [1, 2, 3]"
    "batches (snd (the ?R)) = [[1, 3], [2]]"
    by code_simp+
  with run have facts: "no_failures s" "sent s = [1, 2, 3]" "batches s = [[1, 3], [2]]"
    by simp_all
  from Run_delivers_every_item [OF run nc facts(1)] run nc facts show ?thesis
    by blast
qed

section \<open>The queue after a flush\<close>

text \<open>
  Claim C5 as stated fails: when the handler returns an error, \<open>flush\<close> returns
  before the line that resets the queue, so the queue still holds the batch.
\<close>

theorem flush_failure_keeps_queue:
  "fst (snd (flush failing_handler [1, 2] ())) = [1, 2]"
  by (simp add: flush_def failing_handler_def)

text \<open>
  Claim C5, amended. After a handler invocation that succeeds the queue is empty
  (and a worker that goes on does so with an empty queue); after one that fails
  the queue is unchanged, \<open>flush\<close> returns the handler's error and the worker
  function returns it.
\<close>

theorem flush_queue_after_handler:
  assumes "length queue > 0" and "processFunc queue (hst s) = (r, h')" and "i < length (ws s)"
  shows "flush processFunc queue (hst s) = (r, (if r = None then [] else queue), h') \<and>
         ws (flush_continue processFunc i queue s) ! i =
           (case r of None \<Rightarrow> Running [] | Some err \<Rightarrow> Returned err) \<and>
         ws (flush_return processFunc i queue s) ! i =
           (case r of None \<Rightarrow> Exited | Some err \<Rightarrow> Returned err)"
  using assms
  by (cases r)
     (simp_all add: flush_def flush_continue_def flush_return_def do_flush_def set_worker_def)

theorem flush_queue_after_handler_witness:
  "length [1, 2 :: nat] > 0 \<and>
   failing_handler [1, 2] (hst one_worker_state) = (Some (Msg ''load failed''), ()) \<and>
   (0::nat) < length (ws one_worker_state) \<and>
   flush failing_handler [1, 2] (hst one_worker_state) = (Some (Msg ''load failed''), [1, 2], ()) \<and>
   ws (flush_continue failing_handler 0 [1, 2] one_worker_state) ! 0 = Returned (Msg ''load failed'')"
proof -
  have nonempty: "length [1, 2 :: nat] > 0" by simp
  have call: "failing_handler [1, 2] (hst one_worker_state) = (Some (Msg ''load failed''), ())"
    by (simp add: failing_handler_def)
  have i: "(0::nat) < length (ws one_worker_state)" by (simp add: one_worker_state_def)
  from flush_queue_after_handler
         [of "[1, 2]" failing_handler one_worker_state "Some (Msg ''load failed'')" "()" 0]
       nonempty call i
  show ?thesis by simp
qed

section \<open>RunAll waits for every pipeline\<close>



section \<open>Handler failures\<close>



section \<open>Construction defaults\<close>

text \<open>
  Claim C8. For every configuration, \<open>New\<close> replaces each non-positive field
  by its default (batch size 100, timeout 5 seconds, one worker) and keeps each
  positive field; \<open>NewManager\<close> replaces a non-positive worker number by 4 and
  keeps a positive one.
\<close>

theorem New_and_NewManager_defaults:
  "BatchSize (cfg (New c :: 'a Bucket)) = (if BatchSize c \<le> 0 then 100 else BatchSize c) \<and>
   Timeout (cfg (New c :: 'a Bucket)) = (if Timeout c \<le> 0 then 5 * 1000000000 else Timeout c) \<and>
   WorkerNum (cfg (New c :: 'a Bucket)) = (if WorkerNum c \<le> 0 then 1 else WorkerNum c) \<and>
   etl_WorkerNum (mcfg (NewManager mc bc)) =
     (if etl_WorkerNum mc \<le> 0 then 4 else etl_WorkerNum mc)"
  by (simp add: New_def clamp_Config_def NewManager_def Second_def Let_def)

theorem New_and_NewManager_defaults_witness:
  "BatchSize (cfg (New \<lparr>BatchSize = 0, Timeout = - 3, WorkerNum = 8\<rparr> :: nat Bucket)) = 100 \<and>
   Timeout (cfg (New \<lparr>BatchSize = 0, Timeout = - 3, WorkerNum = 8\<rparr> :: nat Bucket)) = 5000000000 \<and>
   WorkerNum (cfg (New \<lparr>BatchSize = 0, Timeout = - 3, WorkerNum = 8\<rparr> :: nat Bucket)) = 8 \<and>
   etl_WorkerNum (mcfg (NewManager \<lparr>etl_WorkerNum = 0\<rparr> example_bucket_cfg
                          :: (unit, unit) Manager)) = 4"
  using New_and_NewManager_defaults
    [of "\<lparr>BatchSize = 0, Timeout = - 3, WorkerNum = 8\<rparr>" "\<lparr>etl_WorkerNum = 0\<rparr>"
        example_bucket_cfg]
  by simp

section \<open>RunAll without pipelines\<close>

text \<open>
  Claim C9. With no pipeline registered, \<open>RunAll\<close> returns the error
  \<^verbatim>\<open>no pipelines registered\<close> under every schedule; no task exists, no \<open>Run\<close> has
  been invoked and the pipelines' states are untouched.
\<close>

theorem RunAll_no_pipelines:
  "pipelines m = [] \<Longrightarrow>
     RunAll m sched ws0 =
       Some (Some (Msg ''no pipelines registered''),
             \<lparr>tasks = [], sem = 0, results = [], worlds = ws0, ran = []\<rparr>)"
  by (simp add: RunAll_def)

theorem RunAll_no_pipelines_witness:
  "pipelines (NewManager \<lparr>etl_WorkerNum = 2\<rparr> example_bucket_cfg
                :: (action list, unit) Manager) = [] \<and>
   RunAll (NewManager \<lparr>etl_WorkerNum = 2\<rparr> example_bucket_cfg :: (action list, unit) Manager)
       [Acquire 0, Complete 0 []] [] =
     Some (Some (Msg ''no pipelines registered''),
           \<lparr>tasks = [], sem = 0, results = [], worlds = [], ran = []\<rparr>)"
proof -
  have none: "pipelines (NewManager \<lparr>etl_WorkerNum = 2\<rparr> example_bucket_cfg
                           :: (action list, unit) Manager) = []"
    by (simp add: NewManager_def)
  from RunAll_no_pipelines [OF none] none show ?thesis
    by simp
qed

section \<open>Closing and submitting\<close>

text \<open>
  Claim C10. On a bucket that has not been closed, \<open>Close\<close> returns and \<open>Consume\<close>
  does not panic; once \<open>Close\<close> has returned, a second \<open>Close\<close> panics and so does
  every \<open>Consume\<close>.
\<close>

theorem Close_once_Consume_before:
  "\<not> closed (consumer b) \<Longrightarrow>
     Consume b item \<noteq> Panic \<and>
     (\<exists>b1. Close b = Ok b1 \<and> Close b1 = Panic \<and> Consume b1 item' = Panic)"
  by (simp add: Close_def Consume_def chan_close_def chan_send_def)

theorem Close_once_Consume_before_witness:
  "\<not> closed (consumer (New example_bucket_cfg :: nat Bucket)) \<and>
   Consume (New example_bucket_cfg :: nat Bucket) 7 \<noteq> Panic \<and>
   (\<exists>b1. Close (New example_bucket_cfg :: nat Bucket) = Ok b1 \<and>
         Close b1 = Panic \<and> Consume b1 8 = Panic)"
proof -
  have fresh: "\<not> closed (consumer (New example_bucket_cfg :: nat Bucket))"
    by (simp add: New_def make_chan_def Let_def)
  from Close_once_Consume_before [OF fresh, of 7 8] fresh show ?thesis
    by simp
qed

end
